theory Spec2Isabelle
  imports Complex_Main "HOL-Library.Word" "HOL-Library.Sublist"
begin

unbundle bit_operations_syntax

section \<open>Union-find forest\<close>

text \<open>
  \<^verbatim>\<open>mesh.cpp\<close> and the mesher header use \<^verbatim>\<open>UnionFind::Node\<close>, \<^verbatim>\<open>UnionFind::merge\<close> and
  \<^verbatim>\<open>UnionFind::findRoot\<close> from \<^verbatim>\<open>union_find.h\<close>, which is not among the sources.

  Modelled from the spec: the header \<^verbatim>\<open>union_find.h\<close> (node type, \<^verbatim>\<open>findRoot\<close>, \<^verbatim>\<open>merge\<close>).
  The specification describes a standard union-find forest over integer identifiers with size
  tracking, path compression and union by size, stored as an append-only array of
  \<open>{parent, size}\<close> records; \<open>-1\<close> denotes "no parent"; ties between equally large trees are
  broken towards the lower identifier; when two trees merge, the surviving root's aggregate
  counters are summed from the losing root through a customisation point (the node's own
  \<^verbatim>\<open>merge\<close> member, here the argument \<open>agg\<close>).

  A node outside the table, or a parent chain that never reaches a root, gives no result
  (\<open>None\<close>).
\<close>

record node =
  parent :: int
  nsize :: nat

definition newNode :: node where
  "newNode = \<lparr>parent = - 1, nsize = 1\<rparr>"

definition isRoot :: "'a node_scheme \<Rightarrow> bool" where
  "isRoot n = (parent n < 0)"

text \<open>The search loop: follows parents from \<open>x\<close> to the root, remembering the nodes passed.\<close>

partial_function (option) walk ::
  "'a node_scheme list \<Rightarrow> nat \<Rightarrow> nat list \<Rightarrow> (nat \<times> nat list) option" where
  "walk nodes x acc =
     (if x < length nodes
      then (if isRoot (nodes ! x) then Some (x, acc)
            else walk nodes (nat (parent (nodes ! x))) (x # acc))
      else None)"

text \<open>Path compression: every node passed on the way is re-parented to the root.\<close>

definition compress :: "'a node_scheme list \<Rightarrow> nat \<Rightarrow> nat list \<Rightarrow> 'a node_scheme list" where
  "compress nodes r p = fold (\<lambda>y ns. ns[y := (ns ! y)\<lparr>parent := int r\<rparr>]) p nodes"

definition findRoot :: "'a node_scheme list \<Rightarrow> nat \<Rightarrow> (nat \<times> 'a node_scheme list) option" where
  "findRoot nodes x =
     (case walk nodes x [] of
        None \<Rightarrow> None
      | Some (r, p) \<Rightarrow> Some (r, compress nodes r p))"

text \<open>The search on a table that may not be modified (\<^verbatim>\<open>StxxlMesh::write\<close> is \<^verbatim>\<open>const\<close>).\<close>

definition findRootConst :: "'a node_scheme list \<Rightarrow> nat \<Rightarrow> nat option" where
  "findRootConst nodes x = map_option fst (walk nodes x [])"

definition nodeMerge :: "'a node_scheme \<Rightarrow> 'a node_scheme \<Rightarrow> 'a node_scheme" where
  "nodeMerge a b = a\<lparr>nsize := nsize a + nsize b\<rparr>"

text \<open>
  Union by size; the Boolean tells whether two distinct trees were joined. The larger tree's
  root survives, and of two equally large trees the one with the lower identifier.
\<close>

definition merge ::
  "('a node_scheme \<Rightarrow> 'a node_scheme \<Rightarrow> 'a node_scheme) \<Rightarrow> 'a node_scheme list \<Rightarrow> nat \<Rightarrow> nat
     \<Rightarrow> (bool \<times> 'a node_scheme list) option" where
  "merge agg nodes a b =
     (case findRoot nodes a of
        None \<Rightarrow> None
      | Some (ra, nodes1) \<Rightarrow>
         (case findRoot nodes1 b of
            None \<Rightarrow> None
          | Some (rb, nodes2) \<Rightarrow>
              if ra = rb then Some (False, nodes2)
              else
                let swap = (nsize (nodes2 ! ra) < nsize (nodes2 ! rb)
                            \<or> (nsize (nodes2 ! ra) = nsize (nodes2 ! rb) \<and> rb < ra));
                    w = (if swap then rb else ra);
                    l = (if swap then ra else rb)
                in Some (True, nodes2[w := agg (nodes2 ! w) (nodes2 ! l),
                                      l := (nodes2 ! l)\<lparr>parent := int w\<rparr>])))"

text \<open>
  The abstract view of a forest used in the proofs: \<open>reaches ns x r\<close> holds when the parent
  chain of \<open>x\<close> ends at the root \<open>r\<close>; a table is a forest when every chain ends; \<open>rep\<close> names
  the root.
\<close>

inductive reaches :: "'a node_scheme list \<Rightarrow> nat \<Rightarrow> nat \<Rightarrow> bool" for ns where
  root: "x < length ns \<Longrightarrow> isRoot (ns ! x) \<Longrightarrow> reaches ns x x"
| step: "x < length ns \<Longrightarrow> \<not> isRoot (ns ! x) \<Longrightarrow> reaches ns (nat (parent (ns ! x))) r
         \<Longrightarrow> reaches ns x r"

definition forest :: "'a node_scheme list \<Rightarrow> bool" where
  "forest ns \<longleftrightarrow> (\<forall>x<length ns. \<exists>r. reaches ns x r)"

definition rep :: "'a node_scheme list \<Rightarrow> nat \<Rightarrow> nat" where
  "rep ns x = (THE r. reaches ns x r)"

definition sameForest :: "'a node_scheme list \<Rightarrow> 'a node_scheme list \<Rightarrow> bool" where
  "sameForest ns ns' \<longleftrightarrow>
     length ns' = length ns \<and> (\<forall>y r. reaches ns' y r = reaches ns y r)
     \<and> (\<forall>y<length ns. isRoot (ns ! y) \<longrightarrow> ns' ! y = ns ! y)"

definition joined ::
  "('a node_scheme \<Rightarrow> 'a node_scheme \<Rightarrow> 'a node_scheme) \<Rightarrow> 'a node_scheme list \<Rightarrow> nat \<Rightarrow> nat
     \<Rightarrow> 'a node_scheme list \<Rightarrow> bool" where
  "joined agg ns w l ns' \<longleftrightarrow>
     length ns' = length ns \<and> forest ns'
     \<and> (\<forall>x<length ns. rep ns' x = (if rep ns x = l then w else rep ns x))
     \<and> ns' ! w = agg (ns ! w) (ns ! l)
     \<and> (\<forall>y<length ns. isRoot (ns ! y) \<and> y \<noteq> w \<and> y \<noteq> l \<longrightarrow> ns' ! y = ns ! y)
     \<and> (\<forall>y<length ns. isRoot (ns' ! y) \<longleftrightarrow> isRoot (ns ! y) \<and> y \<noteq> l)"

text \<open>What the proofs need of a node's \<^verbatim>\<open>merge\<close> member: it leaves the parent alone.\<close>

definition keepsParent :: "('a node_scheme \<Rightarrow> 'a node_scheme \<Rightarrow> 'a node_scheme) \<Rightarrow> bool" where
  "keepsParent agg \<longleftrightarrow> (\<forall>x y. parent (agg x y) = parent x)"

section \<open>Clumps and the key map (\<^verbatim>\<open>detail::KeyMapMesh\<close>)\<close>

text \<open>
  A clump is a union-find node that also carries the number of vertices and triangles of its
  component, valid at roots. \<^verbatim>\<open>Clump::merge\<close> merges the node part and adds both counters.
  The counters are the unsigned 64-bit integers of the mesher header's \<^verbatim>\<open>Clump\<close>.
\<close>

record clump = node +
  vertices :: "64 word"
  triangles :: "64 word"

definition Clump :: "nat \<Rightarrow> clump" where
  "Clump numVertices = \<lparr>parent = - 1, nsize = 1, vertices = word_of_nat numVertices, triangles = 0\<rparr>"

definition clumpMerge :: "clump \<Rightarrow> clump \<Rightarrow> clump" where
  "clumpMerge a b =
     (nodeMerge a b)\<lparr>vertices := vertices a + vertices b, triangles := triangles a + triangles b\<rparr>"

type_synonym vertex_key = "64 word"

type_synonym triangle = "nat \<times> nat \<times> nat"

record external_vertex_data =
  vertexId :: nat
  clumpId :: nat

record keymap_mesh =
  clumps :: "clump list"
  keyMap :: "vertex_key \<rightharpoonup> external_vertex_data"

text \<open>
  The ways in which the code gives up: a C++ exception that unwinds to the caller
  (\<^verbatim>\<open>std::overflow_error\<close> with its message, \<^verbatim>\<open>std::length_error\<close> from a vector that is asked for
  more elements than it can hold), and \<^verbatim>\<open>abort()\<close>, which ends the process.
\<close>

datatype failure = overflow_error string | length_error | aborted

text \<open>Conversion to the 32-bit unsigned \<^verbatim>\<open>cl_uint\<close>: the value modulo \<open>2^32\<close>.\<close>

definition cl_uint :: "nat \<Rightarrow> nat" where
  "cl_uint x = x mod 4294967296"

text \<open>Subtraction of two \<^verbatim>\<open>std::size_t\<close> values: below zero it wraps around \<open>2^64\<close>.\<close>

definition size_t_sub :: "nat \<Rightarrow> nat \<Rightarrow> nat" where
  "size_t_sub a b = (if b \<le> a then a - b else 18446744073709551616 - (b - a))"

text \<open>\<^verbatim>\<open>std::numeric_limits<clump_id>::max()\<close> for the 32-bit signed \<^verbatim>\<open>clump_id\<close>.\<close>

definition clump_id_max :: nat where
  "clump_id_max = 2147483647"

text \<open>
  A mesh fragment as the host sees it after \<^verbatim>\<open>loadData\<close>: all vertices (internal ones first),
  the keys of the external vertices, and the triangles. \<open>'v\<close> is the vertex payload
  (three floats in the code).
\<close>

record 'v fragment =
  hVertices :: "'v list"
  hVertexKeys :: "vertex_key list"
  hTriangles :: "triangle list"
  numInternalVertices :: nat

definition numVertices :: "'v fragment \<Rightarrow> nat" where
  "numVertices f = length (hVertices f)"

text \<open>
  \<^verbatim>\<open>numVertices - numInternalVertices\<close>: when more internal vertices are announced than there are
  vertices, the difference wraps around.
\<close>

definition numExternalVertices :: "'v fragment \<Rightarrow> nat" where
  "numExternalVertices f = size_t_sub (numVertices f) (numInternalVertices f)"

text \<open>
  \<^verbatim>\<open>loadData\<close> and \<^verbatim>\<open>BigMesh::count\<close> resize the key buffer to the number of external vertices.
  After a wrap-around that number is beyond the \<^verbatim>\<open>max_size()\<close> of the vector and the resize throws
  \<^verbatim>\<open>std::length_error\<close>.
\<close>

definition resizeThrows :: "'v fragment \<Rightarrow> bool" where
  "resizeThrows f \<longleftrightarrow> numVertices f < numInternalVertices f"

text \<open>The caller's obligation on a fragment's triangles: every index names a vertex.\<close>

definition trianglesBelow :: "nat \<Rightarrow> triangle list \<Rightarrow> bool" where
  "trianglesBelow n tris \<longleftrightarrow> (\<forall>(a, b, c)\<in>set tris. a < n \<and> b < n \<and> c < n)"

subsection \<open>\<^verbatim>\<open>KeyMapMesh::computeLocalComponents\<close>\<close>

text \<open>First loop: two unions per triangle.\<close>

fun mergeTriangles :: "node list \<Rightarrow> triangle list \<Rightarrow> node list option" where
  "mergeTriangles nodes [] = Some nodes"
| "mergeTriangles nodes ((a, b, c) # ts) =
     (case merge nodeMerge nodes a b of
        None \<Rightarrow> None
      | Some (_, nodes1) \<Rightarrow>
         (case merge nodeMerge nodes1 b c of
            None \<Rightarrow> None
          | Some (_, nodes2) \<Rightarrow> mergeTriangles nodes2 ts))"

text \<open>Second loop: a new global clump for every local root, unless the table is full.\<close>

fun allocateClumps ::
  "node list \<Rightarrow> nat list \<Rightarrow> clump list \<Rightarrow> nat list \<Rightarrow> failure + (clump list \<times> nat list)" where
  "allocateClumps nodes [] cs cid = Inr (cs, cid)"
| "allocateClumps nodes (i # is) cs cid =
     (if isRoot (nodes ! i)
      then (if length cs > clump_id_max then Inl (overflow_error ''Too many clumps'')
            else allocateClumps nodes is (cs @ [Clump (nsize (nodes ! i))]) (cid[i := length cs]))
      else allocateClumps nodes is cs cid)"

text \<open>Third loop: every vertex takes the clump of its local root.\<close>

fun computeClumpIds :: "node list \<Rightarrow> nat list \<Rightarrow> nat list \<Rightarrow> nat list option" where
  "computeClumpIds nodes [] cid = Some cid"
| "computeClumpIds nodes (i # is) cid =
     (case findRoot nodes i of
        None \<Rightarrow> None
      | Some (r, nodes') \<Rightarrow> computeClumpIds nodes' is (cid[i := cid ! r]))"

text \<open>Fourth loop: one more triangle for the clump of each triangle's first vertex.\<close>

fun countTriangles :: "nat list \<Rightarrow> triangle list \<Rightarrow> clump list \<Rightarrow> clump list option" where
  "countTriangles cid [] cs = Some cs"
| "countTriangles cid ((a, b, c) # ts) cs =
     (if a < length cid \<and> cid ! a < length cs
      then countTriangles cid ts
             (cs[cid ! a := (cs ! (cid ! a))\<lparr>triangles := triangles (cs ! (cid ! a)) + 1\<rparr>])
      else None)"

definition computeLocalComponents ::
  "clump list \<Rightarrow> nat \<Rightarrow> triangle list \<Rightarrow> (failure + (clump list \<times> nat list)) option" where
  "computeLocalComponents cs n tris =
     (case mergeTriangles (replicate n newNode) tris of
        None \<Rightarrow> None
      | Some nodes \<Rightarrow>
         (case allocateClumps nodes [0..<n] cs (replicate n 0) of
            Inl e \<Rightarrow> Some (Inl e)
          | Inr (cs1, cid1) \<Rightarrow>
             (case computeClumpIds nodes [0..<n] cid1 of
                None \<Rightarrow> None
              | Some cid2 \<Rightarrow>
                 (case countTriangles cid2 tris cs1 of
                    None \<Rightarrow> None
                  | Some cs2 \<Rightarrow> Some (Inr (cs2, cid2))))))"

text \<open>
  What \<^verbatim>\<open>computeLocalComponents\<close> establishes, for the local forest \<open>nodes\<close> left by the
  merge loop: the old clumps are untouched, there is one new clump for every local root, every
  vertex has the identifier of a new clump, two vertices share it exactly when they share their
  local root, and every new clump is a root that counts the vertices of one local tree.
\<close>

definition localResult :: "clump list \<Rightarrow> node list \<Rightarrow> clump list \<Rightarrow> nat list \<Rightarrow> bool" where
  "localResult cs nodes cs' cid \<longleftrightarrow>
     length cid = length nodes \<and> length cs' = length cs + length (filter isRoot nodes)
     \<and> take (length cs) cs' = cs
     \<and> (\<forall>i<length nodes. length cs \<le> cid ! i \<and> cid ! i < length cs')
     \<and> (\<forall>i<length nodes. \<forall>j<length nodes. cid ! i = cid ! j \<longleftrightarrow> rep nodes i = rep nodes j)
     \<and> (\<forall>c<length cs'. length cs \<le> c \<longrightarrow>
           isRoot (cs' ! c)
           \<and> (\<exists>r<length nodes. isRoot (nodes ! r) \<and> cid ! r = c
                  \<and> vertices (cs' ! c) = word_of_nat (nsize (nodes ! r))))"

subsection \<open>\<^verbatim>\<open>KeyMapMesh::updateKeyMap\<close>\<close>

text \<open>
  The body of the loop for one external vertex with key \<open>key\<close> in clump \<open>cid\<close>; \<open>vid\<close> is
  \<^verbatim>\<open>vertexOffset + newKeys\<close> as stored in the 32-bit \<^verbatim>\<open>vertexId\<close>. The result says whether the key was
  new, gives the entry of \<^verbatim>\<open>indexTable\<close> and the new state.
\<close>

definition updateKeyMapStep ::
  "nat \<Rightarrow> vertex_key \<Rightarrow> nat \<Rightarrow> keymap_mesh \<Rightarrow> (bool \<times> nat \<times> keymap_mesh) option" where
  "updateKeyMapStep vid key cid m =
     (case keyMap m key of
        None \<Rightarrow>
          Some (True, vid, m\<lparr>keyMap := (keyMap m)(key \<mapsto> \<lparr>vertexId = vid, clumpId = cid\<rparr>)\<rparr>)
      | Some ed \<Rightarrow>
         (case merge clumpMerge (clumps m) cid (clumpId ed) of
            None \<Rightarrow> None
          | Some (_, cs1) \<Rightarrow>
             (case findRoot cs1 cid of
                None \<Rightarrow> None
              | Some (r, cs2) \<Rightarrow>
                  Some (False, vertexId ed,
                        m\<lparr>clumps := cs2[r := (cs2 ! r)\<lparr>vertices := vertices (cs2 ! r) - 1\<rparr>]\<rparr>))))"

fun updateKeyMapLoop ::
  "nat \<Rightarrow> vertex_key list \<Rightarrow> nat list \<Rightarrow> nat \<Rightarrow> nat list \<Rightarrow> nat \<Rightarrow> nat list \<Rightarrow> keymap_mesh
     \<Rightarrow> (nat \<times> nat list \<times> keymap_mesh) option" where
  "updateKeyMapLoop vertexOffset tmpVertexKeys cid nInt [] newKeys indexTable m =
     Some (newKeys, indexTable, m)"
| "updateKeyMapLoop vertexOffset tmpVertexKeys cid nInt (i # is) newKeys indexTable m =
     (case updateKeyMapStep (cl_uint (vertexOffset + newKeys)) (tmpVertexKeys ! i)
             (cid ! (i + nInt)) m of
        None \<Rightarrow> None
      | Some (added, v, m') \<Rightarrow>
          updateKeyMapLoop vertexOffset tmpVertexKeys cid nInt is
            (if added then newKeys + 1 else newKeys) (indexTable[i := v]) m')"

text \<open>
  The loop takes its bounds from the argument \<^verbatim>\<open>hKeys\<close> and reads the keys from the member
  \<^verbatim>\<open>tmpVertexKeys\<close>, here the first argument; both callers pass that member as \<^verbatim>\<open>hKeys\<close>. The
  offset arrives as a \<^verbatim>\<open>cl_uint\<close>.
\<close>

definition updateKeyMap ::
  "vertex_key list \<Rightarrow> nat \<Rightarrow> vertex_key list \<Rightarrow> nat list \<Rightarrow> keymap_mesh
     \<Rightarrow> (nat \<times> nat list \<times> keymap_mesh) option" where
  "updateKeyMap tmpVertexKeys vertexOffset hKeys cid m =
     updateKeyMapLoop (cl_uint vertexOffset) tmpVertexKeys cid
       (size_t_sub (length cid) (length hKeys))
       [0..<length hKeys] 0 (replicate (length hKeys) 0) m"

subsection \<open>\<^verbatim>\<open>KeyMapMesh::rewriteTriangles\<close>\<close>

definition rewriteIndex :: "nat \<Rightarrow> nat \<Rightarrow> nat list \<Rightarrow> nat \<Rightarrow> nat" where
  "rewriteIndex priorVertices nInt indexTable index =
     (if index < nInt then cl_uint (priorVertices + index) else indexTable ! (index - nInt))"

definition rewriteTriangles :: "nat \<Rightarrow> nat \<Rightarrow> nat list \<Rightarrow> triangle list \<Rightarrow> triangle list" where
  "rewriteTriangles priorVertices nInt indexTable tris =
     map (\<lambda>(a, b, c). (rewriteIndex (cl_uint priorVertices) nInt indexTable a,
                        rewriteIndex (cl_uint priorVertices) nInt indexTable b,
                        rewriteIndex (cl_uint priorVertices) nInt indexTable c)) tris"

section \<open>Feeding fragments to a mesh\<close>

text \<open>
  \<^verbatim>\<open>Marching::generate\<close> calls the output functor of a pass once per fragment; an exception
  ends the pass.
\<close>

fun feed ::
  "('f \<Rightarrow> 's \<Rightarrow> (failure + 's) option) \<Rightarrow> 'f list \<Rightarrow> 's \<Rightarrow> (failure + 's) option" where
  "feed functor [] m = Some (Inr m)"
| "feed functor (f # fs) m =
     (case functor f m of
        None \<Rightarrow> None
      | Some (Inl e) \<Rightarrow> Some (Inl e)
      | Some (Inr m') \<Rightarrow> feed functor fs m')"

section \<open>\<^verbatim>\<open>BigMesh\<close>: counting pass and writing pass\<close>










section \<open>\<^verbatim>\<open>StxxlMesh\<close>: ingest and pruned output\<close>

record 'v stxxl_mesh = keymap_mesh +
  meshVertices :: "('v \<times> nat) list"
  meshTriangles :: "triangle list"

definition StxxlMesh :: "'v stxxl_mesh" where
  "StxxlMesh = \<lparr>clumps = [], keyMap = Map.empty, meshVertices = [], meshTriangles = []\<rparr>"

text \<open>The loop of \<^verbatim>\<open>StxxlMesh::add\<close> that stores the external vertices seen for the first time.\<close>

fun storeExternal ::
  "'v list \<Rightarrow> nat list \<Rightarrow> nat \<Rightarrow> nat list \<Rightarrow> nat list \<Rightarrow> ('v \<times> nat) list \<Rightarrow> ('v \<times> nat) list" where
  "storeExternal tv cid nInt indexTable [] vs = vs"
| "storeExternal tv cid nInt indexTable (i # is) vs =
     storeExternal tv cid nInt indexTable is
       (if indexTable ! i = length vs then vs @ [(tv ! (nInt + i), cid ! (nInt + i))] else vs)"

definition StxxlMesh_add :: "'v fragment \<Rightarrow> 'v stxxl_mesh \<Rightarrow> (failure + 'v stxxl_mesh) option" where
  "StxxlMesh_add f m =
     (let priorVertices = length (meshVertices m) in
      if resizeThrows f then Some (Inl length_error) else
      case computeLocalComponents (clumps m) (numVertices f) (hTriangles f) of
        None \<Rightarrow> None
      | Some (Inl e) \<Rightarrow> Some (Inl e)
      | Some (Inr (cs, cid)) \<Rightarrow>
         (case updateKeyMap (hVertexKeys f) (priorVertices + numInternalVertices f)
                 (hVertexKeys f) cid
                 \<lparr>clumps = cs, keyMap = keyMap m\<rparr> of
            None \<Rightarrow> None
          | Some (newKeys, indexTable, km) \<Rightarrow>
              let vs1 = meshVertices m
                          @ map (\<lambda>i. (hVertices f ! i, cid ! i)) [0..<numInternalVertices f];
                  vs2 = storeExternal (hVertices f) cid (numInternalVertices f) indexTable
                          [0..<numExternalVertices f] vs1;
                  tris = rewriteTriangles priorVertices (numInternalVertices f) indexTable
                           (hTriangles f)
              in Some (Inr (m\<lparr>clumps := clumps km, keyMap := keyMap km,
                              meshVertices := vs2,
                              meshTriangles := meshTriangles m @ tris\<rparr>))))"

subsection \<open>Double-precision arithmetic\<close>

text \<open>
  The threshold of \<^verbatim>\<open>StxxlMesh::write\<close> is computed in \<^verbatim>\<open>double\<close>. A finite \<^verbatim>\<open>double\<close> is modelled by
  the real number it denotes, and an operation by the exact operation followed by rounding to
  the nearest \<^verbatim>\<open>double\<close>, ties to the one with an even significand (IEEE 754 binary64: 53
  significant bits, exponent of the leading bit at least \<open>-1022\<close>, below which the numbers are
  spaced \<open>2^-1074\<close> apart). Overflow to infinity is not modelled: the conversion below gives the
  same result for every value of magnitude \<open>2^63\<close> or more.
\<close>

definition pow2 :: "int \<Rightarrow> real" where
  "pow2 e = (if 0 \<le> e then 2 ^ nat e else 1 / 2 ^ nat (- e))"

text \<open>Rounding to the nearest integer, ties to the even one.\<close>

definition roundEven :: "real \<Rightarrow> int" where
  "roundEven x =
     (if x - of_int \<lfloor>x\<rfloor> < 1 / 2 then \<lfloor>x\<rfloor>
      else if 1 / 2 < x - of_int \<lfloor>x\<rfloor> then \<lfloor>x\<rfloor> + 1
      else if even \<lfloor>x\<rfloor> then \<lfloor>x\<rfloor> else \<lfloor>x\<rfloor> + 1)"

text \<open>The exponent of the leading bit of the \<^verbatim>\<open>double\<close> nearest to \<open>x\<close>, and the unit in its last place.\<close>

definition binade :: "real \<Rightarrow> int" where
  "binade x = max \<lfloor>log 2 \<bar>x\<bar>\<rfloor> (- 1022)"

definition ulp :: "real \<Rightarrow> real" where
  "ulp x = pow2 (binade x - 52)"

definition roundDouble :: "real \<Rightarrow> real" where
  "roundDouble x = (if x = 0 then 0 else of_int (roundEven (x / ulp x)) * ulp x)"

text \<open>
  The conversion \<^verbatim>\<open>(cl_uint) x\<close> of a \<^verbatim>\<open>double\<close> truncates towards zero. Where the truncated value is
  not a \<^verbatim>\<open>cl_uint\<close> the language leaves the result undefined; the definition gives what the
  compiled x86-64 code computes: the conversion to a signed 64-bit integer, of which the low 32
  bits are kept, and whose result for a value outside its range has the low 32 bits zero.
\<close>

definition cl_uint_of_double :: "real \<Rightarrow> nat" where
  "cl_uint_of_double x =
     (let i = (if 0 \<le> x then \<lfloor>x\<rfloor> else \<lceil>x\<rceil>)
      in if - 9223372036854775808 \<le> i \<and> i < 9223372036854775808
         then nat (i mod 4294967296) else 0)"

text \<open>
  \<^verbatim>\<open>(cl_uint) (vertices.size() * getPruneThreshold())\<close>: the size is converted to \<^verbatim>\<open>double\<close>, the
  product is taken in \<^verbatim>\<open>double\<close>, and the result is converted to \<^verbatim>\<open>cl_uint\<close>.
\<close>

definition thresholdVertices :: "nat \<Rightarrow> real \<Rightarrow> nat" where
  "thresholdVertices n pruneThreshold =
     cl_uint_of_double (roundDouble (roundDouble (real n) * pruneThreshold))"

text \<open>The test that decides whether a clump, and with it its component, is written.\<close>

definition clumpKept :: "nat \<Rightarrow> clump \<Rightarrow> bool" where
  "clumpKept thr c \<longleftrightarrow> isRoot c \<and> thr \<le> unat (vertices c)"

text \<open>The components written for a prune threshold: the roots that pass the test.\<close>

definition retained :: "'v stxxl_mesh \<Rightarrow> real \<Rightarrow> nat list" where
  "retained m t =
     filter (\<lambda>i. clumpKept (thresholdVertices (length (meshVertices m)) t) (clumps m ! i))
       [0..<length (clumps m)]"

definition UINT_MAX :: nat where
  "UINT_MAX = 4294967295"

text \<open>The vertex loop of \<^verbatim>\<open>StxxlMesh::write\<close>: the vertices emitted and the remapping table.\<close>

fun writeVertices ::
  "clump list \<Rightarrow> nat \<Rightarrow> ('v \<times> nat) list \<Rightarrow> 'v list \<Rightarrow> nat list \<Rightarrow> nat
     \<Rightarrow> ('v list \<times> nat list) option" where
  "writeVertices cs thr [] out vertexRemap nextV = Some (out, vertexRemap)"
| "writeVertices cs thr ((v, c) # vs) out vertexRemap nextV =
     (case findRootConst cs c of
        None \<Rightarrow> None
      | Some r \<Rightarrow>
          if thr \<le> unat (vertices (cs ! r))
          then writeVertices cs thr vs (out @ [v]) (vertexRemap @ [nextV]) (cl_uint (nextV + 1))
          else writeVertices cs thr vs out (vertexRemap @ [UINT_MAX]) nextV)"

text \<open>The triangle loop: a triangle is written unless its first index maps to the sentinel.\<close>

fun writeTriangles :: "nat list \<Rightarrow> triangle list \<Rightarrow> triangle list \<Rightarrow> triangle list option" where
  "writeTriangles vertexRemap [] out = Some out"
| "writeTriangles vertexRemap ((a, b, c) # ts) out =
     (if a < length vertexRemap \<and> b < length vertexRemap \<and> c < length vertexRemap
      then writeTriangles vertexRemap ts
             (if vertexRemap ! a \<noteq> UINT_MAX
              then out @ [(vertexRemap ! a, vertexRemap ! b, vertexRemap ! c)] else out)
      else None)"

record 'v ply_file =
  declaredVertices :: "64 word"
  declaredTriangles :: "64 word"
  fileVertices :: "'v list"
  fileTriangles :: "triangle list"

definition StxxlMesh_write :: "'v stxxl_mesh \<Rightarrow> real \<Rightarrow> 'v ply_file option" where
  "StxxlMesh_write m pruneThreshold =
     (let thr = thresholdVertices (length (meshVertices m)) pruneThreshold;
          kept = filter (clumpKept thr) (clumps m)
      in case writeVertices (clumps m) thr (meshVertices m) [] [] 0 of
           None \<Rightarrow> None
         | Some (vs, vertexRemap) \<Rightarrow>
            (case writeTriangles vertexRemap (meshTriangles m) [] of
               None \<Rightarrow> None
             | Some ts \<Rightarrow>
                 Some \<lparr>declaredVertices = sum_list (map vertices kept),
                       declaredTriangles = sum_list (map triangles kept),
                       fileVertices = vs, fileTriangles = ts\<rparr>))"

section \<open>Notions used to state the properties\<close>

text \<open>
  A fragment as the producer must deliver it: the internal vertices are a prefix, there is one
  key per external vertex, and the triangles index the fragment's vertices.
\<close>

definition wellFormed :: "'v fragment \<Rightarrow> bool" where
  "wellFormed f \<longleftrightarrow>
     numInternalVertices f \<le> length (hVertices f)
     \<and> length (hVertexKeys f) = length (hVertices f) - numInternalVertices f
     \<and> trianglesBelow (length (hVertices f)) (hTriangles f)"

text \<open>Every clump recorded in the key map exists.\<close>

definition validIds :: "'a keymap_mesh_scheme \<Rightarrow> bool" where
  "validIds m \<longleftrightarrow> (\<forall>k ed. keyMap m k = Some ed \<longrightarrow> clumpId ed < length (clumps m))"

text \<open>
  The effect on the clump table of welding an external vertex of clump \<open>a\<close> to a key first seen
  in clump \<open>b\<close>: the two trees become one with root \<open>w\<close>, whose vertex counter is the sum of
  the two counters (or the one counter, when the trees were already the same) less one; the
  other roots keep their counters.
\<close>

definition welded :: "clump list \<Rightarrow> nat \<Rightarrow> nat \<Rightarrow> clump list \<Rightarrow> bool" where
  "welded cs a b cs' \<longleftrightarrow>
     length cs' = length cs \<and> forest cs'
     \<and> (\<exists>w. (w = rep cs a \<or> w = rep cs b)
            \<and> (\<forall>x<length cs. rep cs' x
                    = (if rep cs x = rep cs a \<or> rep cs x = rep cs b then w else rep cs x))
            \<and> vertices (cs' ! w)
                = (if rep cs a = rep cs b then vertices (cs ! w)
                   else vertices (cs ! rep cs a) + vertices (cs ! rep cs b)) - 1
            \<and> (\<forall>y<length cs. isRoot (cs ! y) \<and> y \<noteq> rep cs a \<and> y \<noteq> rep cs b
                    \<longrightarrow> vertices (cs' ! y) = vertices (cs ! y)))"




text \<open>The executable test that a table is a forest: the search ends for every entry.\<close>

definition isForest :: "'a node_scheme list \<Rightarrow> bool" where
  "isForest ns \<longleftrightarrow> list_all (\<lambda>x. findRootConst ns x \<noteq> None) [0..<length ns]"




text \<open>
  The number of local components of a fragment: the roots of the forest that the merge loop of
  \<^verbatim>\<open>computeLocalComponents\<close> leaves. It does not depend on the state of the mesh.
\<close>

definition localComponents :: "'v fragment \<Rightarrow> nat" where
  "localComponents f =
     (case mergeTriangles (replicate (numVertices f) newNode) (hTriangles f) of
        None \<Rightarrow> 0
      | Some nodes \<Rightarrow> length (filter isRoot nodes))"

text \<open>
  The positions handed out by \<^verbatim>\<open>updateKeyMap\<close>, read in the order of the external vertices
  against the length \<open>L\<close> of the vertex store: an entry is at most the current length, and an
  entry equal to it stands for a vertex that \<^verbatim>\<open>StxxlMesh::add\<close> appends.
\<close>

fun tracked :: "nat \<Rightarrow> nat list \<Rightarrow> bool" where
  "tracked L [] = True"
| "tracked L (v # vs) = (v \<le> L \<and> tracked (if v = L then L + 1 else L) vs)"

fun endLength :: "nat \<Rightarrow> nat list \<Rightarrow> nat" where
  "endLength L [] = L"
| "endLength L (v # vs) = endLength (if v = L then L + 1 else L) vs"

text \<open>
  What holds of a \<^verbatim>\<open>StxxlMesh\<close> between two fragments: the clump table is a forest, the key map
  and the stored vertices name existing clumps, the key map names stored vertices, and the
  stored triangles index stored vertices.
\<close>

definition storeInv :: "'v stxxl_mesh \<Rightarrow> bool" where
  "storeInv m \<longleftrightarrow>
     forest (clumps m) \<and> validIds m
     \<and> (\<forall>vc\<in>set (meshVertices m). snd vc < length (clumps m))
     \<and> (\<forall>k ed. keyMap m k = Some ed \<longrightarrow> vertexId ed < length (meshVertices m))
     \<and> trianglesBelow (length (meshVertices m)) (meshTriangles m)"

text \<open>
  The stored vertices that \<^verbatim>\<open>StxxlMesh::write\<close> emits for a prune threshold: those whose clump has
  a retained root.
\<close>

definition writtenVertices :: "'v stxxl_mesh \<Rightarrow> real \<Rightarrow> 'v list" where
  "writtenVertices m t =
     map fst (filter (\<lambda>vc. \<exists>r\<in>set (retained m t). findRootConst (clumps m) (snd vc) = Some r)
                (meshVertices m))"

section \<open>Properties of the union-find forest\<close>

lemma reaches_bounds:
  "reaches ns x r \<Longrightarrow> x < length ns \<and> r < length ns \<and> isRoot (ns ! r)"
  by (induction rule: reaches.induct) auto

lemma reaches_det: "reaches ns x r \<Longrightarrow> reaches ns x r' \<Longrightarrow> r = r'"
proof (induction arbitrary: r' rule: reaches.induct)
  case (root x)
  from root.prems root.hyps show ?case by (cases rule: reaches.cases) auto
next
  case (step x r)
  from step.prems step.hyps(2) have "reaches ns (nat (parent (ns ! x))) r'"
    by (cases rule: reaches.cases) auto
  then show ?case by (rule step.IH)
qed

lemma reaches_root_iff:
  "isRoot (ns ! x) \<Longrightarrow> reaches ns x r \<longleftrightarrow> (x < length ns \<and> r = x)"
  by (auto intro: reaches.root elim: reaches.cases)

lemma rep_eq: "reaches ns x r \<Longrightarrow> rep ns x = r"
  unfolding rep_def by (rule the_equality) (auto dest: reaches_det)

lemma forest_reaches_rep:
  assumes "forest ns" "x < length ns"
  shows "reaches ns x (rep ns x)"
proof -
  from assms obtain r where r: "reaches ns x r" unfolding forest_def by blast
  then have "rep ns x = r" by (rule rep_eq)
  with r show ?thesis by simp
qed

lemma walk_of_reaches:
  "reaches ns x r \<Longrightarrow>
     \<exists>p. walk ns x acc = Some (r, p @ acc)
        \<and> (\<forall>y\<in>set p. y < length ns \<and> \<not> isRoot (ns ! y) \<and> reaches ns y r)"
proof (induction arbitrary: acc rule: reaches.induct)
  case (root x)
  then show ?case by (subst walk.simps) auto
next
  case (step x r)
  from step.IH[of "x # acc"] obtain p where
    p: "walk ns (nat (parent (ns ! x))) (x # acc) = Some (r, p @ x # acc)"
       "\<forall>y\<in>set p. y < length ns \<and> \<not> isRoot (ns ! y) \<and> reaches ns y r" by blast
  have "reaches ns x r" using step.hyps by (rule reaches.step)
  with p step.hyps(1,2) show ?case
    by (subst walk.simps) (auto intro!: exI[of _ "p @ [x]"])
qed

lemma compress_step_reaches:
  assumes xr: "reaches ns x r" and nr: "\<not> isRoot (ns ! x)"
  shows "reaches (ns[x := (ns ! x)\<lparr>parent := int r\<rparr>]) y r' \<longleftrightarrow> reaches ns y r'"
proof -
  define ns' where "ns' = ns[x := (ns ! x)\<lparr>parent := int r\<rparr>]"
  from reaches_bounds[OF xr] have xl: "x < length ns" and rl: "r < length ns"
    and rr: "isRoot (ns ! r)" by simp_all
  have len: "length ns' = length ns" by (simp add: ns'_def)
  have other: "ns' ! z = ns ! z" if "z \<noteq> x" for z using that by (simp add: ns'_def)
  have px: "parent (ns' ! x) = int r" using xl by (simp add: ns'_def)
  have nr': "\<not> isRoot (ns' ! x)" using px by (simp add: isRoot_def)
  have xr_ne: "r \<noteq> x" using nr rr by auto
  have rr': "reaches ns' r r"
    by (rule reaches.root) (simp_all add: len rl other[OF xr_ne] rr)
  have xr': "reaches ns' x r"
    by (rule reaches.step) (simp_all add: len xl nr' px rr')
  have fwd: "reaches ns' y r'" if "reaches ns y r'"
    using that
  proof (induction rule: reaches.induct)
    case (root z)
    then have "z \<noteq> x" using nr by auto
    then show ?case using root by (intro reaches.root) (simp_all add: len other)
  next
    case (step z q)
    show ?case
    proof (cases "z = x")
      case True
      have "reaches ns x q" using step.hyps True by (simp add: reaches.step)
      with xr have "q = r" by (rule reaches_det[rotated])
      with xr' True show ?thesis by simp
    next
      case False
      show ?thesis
        by (rule reaches.step) (simp_all add: len other[OF False] step.hyps step.IH)
    qed
  qed
  have bwd: "reaches ns y r'" if "reaches ns' y r'"
    using that
  proof (induction rule: reaches.induct)
    case (root z)
    then have "z \<noteq> x" using nr' by auto
    then show ?case using root by (intro reaches.root) (simp_all add: len other)
  next
    case (step z q)
    show ?case
    proof (cases "z = x")
      case True
      from step.IH have "reaches ns r q" by (simp add: True px)
      with rr have "q = r" by (simp add: reaches_root_iff)
      with xr True show ?thesis by simp
    next
      case False
      from step.hyps step.IH have h: "z < length ns" "\<not> isRoot (ns ! z)"
        "reaches ns (nat (parent (ns ! z))) q" by (simp_all add: len other[OF False])
      show ?thesis by (rule reaches.step) (fact h)+
    qed
  qed
  show ?thesis unfolding ns'_def[symmetric] using fwd bwd by blast
qed

lemma sameForest_refl: "sameForest ns ns"
  by (simp add: sameForest_def)

lemma sameForest_trans: "sameForest a b \<Longrightarrow> sameForest b c \<Longrightarrow> sameForest a c"
  unfolding sameForest_def by auto

lemma isRoot_iff_reaches: "y < length ns \<Longrightarrow> isRoot (ns ! y) \<longleftrightarrow> reaches ns y y"
  using reaches_bounds[of ns y y] by (auto intro: reaches.root)

lemma sameForest_isRoot:
  assumes "sameForest ns ns'" "y < length ns"
  shows "isRoot (ns' ! y) = isRoot (ns ! y)"
proof -
  have "y < length ns'" using assms by (simp add: sameForest_def)
  then have "isRoot (ns' ! y) \<longleftrightarrow> reaches ns' y y" by (rule isRoot_iff_reaches)
  also have "\<dots> \<longleftrightarrow> reaches ns y y" using assms(1) by (simp add: sameForest_def)
  also have "\<dots> \<longleftrightarrow> isRoot (ns ! y)" using assms(2) by (simp add: isRoot_iff_reaches)
  finally show ?thesis .
qed

lemma sameForest_rep: "sameForest ns ns' \<Longrightarrow> rep ns' y = rep ns y"
proof -
  assume "sameForest ns ns'"
  then have "reaches ns' y = reaches ns y" by (auto simp: sameForest_def fun_eq_iff)
  then show ?thesis by (simp add: rep_def)
qed

lemma sameForest_forest:
  assumes "sameForest ns ns'" "forest ns"
  shows "forest ns'"
  unfolding forest_def
proof (intro allI impI)
  fix x assume "x < length ns'"
  then have "x < length ns" using assms(1) by (simp add: sameForest_def)
  with assms(2) obtain r where "reaches ns x r" unfolding forest_def by blast
  then have "reaches ns' x r" using assms(1) by (simp add: sameForest_def)
  then show "\<exists>r. reaches ns' x r" ..
qed

lemma compress_sameForest:
  "\<forall>y\<in>set p. \<not> isRoot (ns ! y) \<and> reaches ns y r \<Longrightarrow> sameForest ns (compress ns r p)"
proof (induction p arbitrary: ns)
  case Nil
  then show ?case by (simp add: compress_def sameForest_refl)
next
  case (Cons y p)
  let ?ns1 = "ns[y := (ns ! y)\<lparr>parent := int r\<rparr>]"
  from Cons.prems have y: "\<not> isRoot (ns ! y)" "reaches ns y r" by auto
  have yl: "y < length ns" using reaches_bounds[OF y(2)] by simp
  have s1: "sameForest ns ?ns1"
  proof -
    have "ns[y := (ns ! y)\<lparr>parent := int r\<rparr>] ! z = ns ! z" if "isRoot (ns ! z)" for z
      using that y(1) by (cases "z = y") auto
    then show ?thesis
      unfolding sameForest_def using compress_step_reaches[OF y(2) y(1)] by simp
  qed
  have "\<forall>z\<in>set p. \<not> isRoot (?ns1 ! z) \<and> reaches ?ns1 z r"
  proof
    fix z assume "z \<in> set p"
    with Cons.prems have z: "\<not> isRoot (ns ! z)" "reaches ns z r" by auto
    have "z < length ns" using reaches_bounds[OF z(2)] by simp
    with z s1 show "\<not> isRoot (?ns1 ! z) \<and> reaches ?ns1 z r"
      using sameForest_isRoot[OF s1, of z] by (simp add: sameForest_def)
  qed
  from Cons.IH[OF this] have "sameForest ?ns1 (compress ?ns1 r p)" .
  with s1 have "sameForest ns (compress ?ns1 r p)" by (rule sameForest_trans)
  then show ?case by (simp add: compress_def)
qed

lemma findRoot_forest:
  assumes "forest ns" "x < length ns"
  shows "\<exists>ns'. findRoot ns x = Some (rep ns x, ns') \<and> sameForest ns ns'"
proof -
  have r: "reaches ns x (rep ns x)" using assms by (rule forest_reaches_rep)
  from walk_of_reaches[OF r, of "[]"] obtain p where
    p: "walk ns x [] = Some (rep ns x, p)"
       "\<forall>y\<in>set p. y < length ns \<and> \<not> isRoot (ns ! y) \<and> reaches ns y (rep ns x)" by auto
  from p(2) have "sameForest ns (compress ns (rep ns x) p)"
    by (intro compress_sameForest) auto
  with p(1) show ?thesis by (simp add: findRoot_def)
qed

lemma findRootConst_forest:
  "forest ns \<Longrightarrow> x < length ns \<Longrightarrow> findRootConst ns x = Some (rep ns x)"
  using walk_of_reaches[OF forest_reaches_rep, of ns x "[]"]
  by (auto simp: findRootConst_def)


lemma rep_bounds: "forest ns \<Longrightarrow> x < length ns \<Longrightarrow> rep ns x < length ns \<and> isRoot (ns ! rep ns x)"
  using forest_reaches_rep reaches_bounds by blast

lemma rep_root: "x < length ns \<Longrightarrow> isRoot (ns ! x) \<Longrightarrow> rep ns x = x"
  by (simp add: rep_eq reaches.root)

lemma rep_idem: "forest ns \<Longrightarrow> x < length ns \<Longrightarrow> rep ns (rep ns x) = rep ns x"
  by (simp add: rep_bounds rep_root)

lemma isRoot_iff_rep:
  assumes "forest ns" "x < length ns"
  shows "isRoot (ns ! x) \<longleftrightarrow> rep ns x = x"
proof
  assume "isRoot (ns ! x)"
  with assms(2) show "rep ns x = x" by (simp add: rep_root)
next
  assume "rep ns x = x"
  with rep_bounds[OF assms] show "isRoot (ns ! x)" by simp
qed

lemma link_reaches:
  assumes f: "forest ns" and w: "w < length ns" "isRoot (ns ! w)"
    and l: "l < length ns" "isRoot (ns ! l)" and ne: "w \<noteq> l"
    and W: "isRoot W" and L: "parent L = int w"
    and r: "reaches ns x r"
  shows "reaches (ns[w := W, l := L]) x (if r = l then w else r)"
proof -
  define ns' where "ns' = ns[w := W, l := L]"
  have len: "length ns' = length ns" by (simp add: ns'_def)
  have other: "ns' ! z = ns ! z" if "z \<noteq> w" "z \<noteq> l" for z using that by (simp add: ns'_def)
  have nw: "ns' ! w = W" using w(1) ne by (simp add: ns'_def)
  have nl: "ns' ! l = L" using l(1) by (simp add: ns'_def)
  have ww: "reaches ns' w w" by (rule reaches.root) (simp_all add: len w(1) nw W)
  have lw: "reaches ns' l w"
    by (rule reaches.step) (simp_all add: len l(1) nl L isRoot_def ww)
  have "reaches ns' x (if r = l then w else r)" using r
  proof (induction rule: reaches.induct)
    case (root x)
    show ?case
    proof (cases "x = l")
      case True
      with lw show ?thesis by simp
    next
      case False
      show ?thesis
      proof (cases "x = w")
        case True
        with ww ne show ?thesis by simp
      next
        case xw: False
        have "reaches ns' x x"
          by (rule reaches.root) (simp_all add: len root.hyps other[OF xw False])
        with False show ?thesis by simp
      qed
    qed
  next
    case (step x r)
    then have "x \<noteq> w" "x \<noteq> l" using w l by auto
    then have eq: "ns' ! x = ns ! x" by (rule other)
    show ?case
      by (rule reaches.step) (simp_all add: len eq step.hyps step.IH)
  qed
  then show ?thesis by (simp add: ns'_def)
qed

lemma link_joined:
  assumes f: "forest ns" and w: "w < length ns" "isRoot (ns ! w)"
    and l: "l < length ns" "isRoot (ns ! l)" and ne: "w \<noteq> l"
    and agg: "keepsParent agg"
  shows "joined agg ns w l (ns[w := agg (ns ! w) (ns ! l), l := (ns ! l)\<lparr>parent := int w\<rparr>])"
proof -
  let ?W = "agg (ns ! w) (ns ! l)" and ?L = "(ns ! l)\<lparr>parent := int w\<rparr>"
  let ?ns' = "ns[w := ?W, l := ?L]"
  have W: "isRoot ?W" using w agg by (simp add: isRoot_def keepsParent_def)
  have L: "parent ?L = int w" by simp
  have R: "reaches ?ns' x (if rep ns x = l then w else rep ns x)" if "x < length ns" for x
    using link_reaches[OF f w l ne W L forest_reaches_rep[OF f that]] .
  have f': "forest ?ns'" unfolding forest_def using R by auto
  have rep': "rep ?ns' x = (if rep ns x = l then w else rep ns x)" if "x < length ns" for x
    using R[OF that] by (rule rep_eq)
  have roots: "isRoot (?ns' ! y) \<longleftrightarrow> isRoot (ns ! y) \<and> y \<noteq> l" if "y < length ns" for y
  proof -
    have "isRoot (?ns' ! y) \<longleftrightarrow> rep ?ns' y = y" using f' that by (simp add: isRoot_iff_rep)
    also have "\<dots> \<longleftrightarrow> (if rep ns y = l then w else rep ns y) = y" using rep' that by simp
    also have "\<dots> \<longleftrightarrow> isRoot (ns ! y) \<and> y \<noteq> l"
      using isRoot_iff_rep[OF f that] rep_root[OF w] ne by auto
    finally show ?thesis .
  qed
  show ?thesis unfolding joined_def using f' rep' roots w l ne by auto
qed

lemma sameForest_length: "sameForest ns ns' \<Longrightarrow> length ns' = length ns"
  by (simp add: sameForest_def)

lemma sameForest_root_nth:
  "sameForest ns ns' \<Longrightarrow> y < length ns \<Longrightarrow> isRoot (ns ! y) \<Longrightarrow> ns' ! y = ns ! y"
  by (simp add: sameForest_def)

lemma merge_spec:
  assumes f: "forest ns" and a: "a < length ns" and b: "b < length ns"
    and agg: "keepsParent agg"
  shows "\<exists>ch ns'. merge agg ns a b = Some (ch, ns')
           \<and> (if rep ns a = rep ns b then \<not> ch \<and> sameForest ns ns'
               else ch \<and> (\<exists>w l. ((w = rep ns a \<and> l = rep ns b) \<or> (w = rep ns b \<and> l = rep ns a))
                                \<and> joined agg ns w l ns'))"
proof -
  from findRoot_forest[OF f a] obtain n1 where
    n1: "findRoot ns a = Some (rep ns a, n1)" "sameForest ns n1" by blast
  have f1: "forest n1" using n1(2) f by (rule sameForest_forest)
  have b1: "b < length n1" using b n1(2) by (simp add: sameForest_length)
  from findRoot_forest[OF f1 b1] obtain n2 where
    n2: "findRoot n1 b = Some (rep n1 b, n2)" "sameForest n1 n2" by blast
  have rb: "rep n1 b = rep ns b" using n1(2) by (rule sameForest_rep)
  have s2: "sameForest ns n2" using n1(2) n2(2) by (rule sameForest_trans)
  have f2: "forest n2" using s2 f by (rule sameForest_forest)
  have len2: "length n2 = length ns" using s2 by (rule sameForest_length)
  show ?thesis
  proof (cases "rep ns a = rep ns b")
    case True
    have "merge agg ns a b = Some (False, n2)"
      using n1(1) n2(1) rb True by (simp add: merge_def)
    with s2 True show ?thesis by (intro exI[of _ False] exI[of _ n2]) simp
  next
    case False
    define swap where "swap \<longleftrightarrow> (nsize (n2 ! rep ns a) < nsize (n2 ! rep ns b)
                            \<or> (nsize (n2 ! rep ns a) = nsize (n2 ! rep ns b) \<and> rep ns b < rep ns a))"
    define w where "w = (if swap then rep ns b else rep ns a)"
    define l where "l = (if swap then rep ns a else rep ns b)"
    have wl: "(w = rep ns a \<and> l = rep ns b) \<or> (w = rep ns b \<and> l = rep ns a)"
      by (simp add: w_def l_def)
    have ne: "w \<noteq> l" using False wl by auto
    have ra: "rep ns a < length ns" "isRoot (ns ! rep ns a)" using rep_bounds[OF f a] by simp_all
    have rb': "rep ns b < length ns" "isRoot (ns ! rep ns b)" using rep_bounds[OF f b] by simp_all
    have w0: "w < length ns" "isRoot (ns ! w)" using ra rb' by (simp_all add: w_def)
    have l0: "l < length ns" "isRoot (ns ! l)" using ra rb' by (simp_all add: l_def)
    have w: "w < length n2" "isRoot (n2 ! w)" "n2 ! w = ns ! w"
      using w0 sameForest_root_nth[OF s2 w0] len2 by simp_all
    have l: "l < length n2" "isRoot (n2 ! l)" "n2 ! l = ns ! l"
      using l0 sameForest_root_nth[OF s2 l0] len2 by simp_all
    define ns' where "ns' = n2[w := agg (n2 ! w) (n2 ! l), l := (n2 ! l)\<lparr>parent := int w\<rparr>]"
    have "merge agg ns a b =
            Some (True, n2[(if swap then rep ns b else rep ns a) :=
                             agg (n2 ! (if swap then rep ns b else rep ns a))
                                 (n2 ! (if swap then rep ns a else rep ns b)),
                           (if swap then rep ns a else rep ns b) :=
                             (n2 ! (if swap then rep ns a else rep ns b))
                               \<lparr>parent := int (if swap then rep ns b else rep ns a)\<rparr>])"
      using n1(1) n2(1) rb False unfolding merge_def swap_def by (simp add: Let_def)
    then have m: "merge agg ns a b = Some (True, ns')"
      unfolding ns'_def w_def l_def .
    have j2: "joined agg n2 w l ns'"
      unfolding ns'_def using link_joined[OF f2 w(1,2) l(1,2) ne agg] .
    have j: "joined agg ns w l ns'"
      unfolding joined_def
    proof (intro conjI allI impI)
      show "length ns' = length ns" using j2 len2 by (simp add: joined_def)
      show "forest ns'" using j2 by (simp add: joined_def)
      show "rep ns' x = (if rep ns x = l then w else rep ns x)" if "x < length ns" for x
        using j2 that len2 sameForest_rep[OF s2] by (simp add: joined_def)
      show "ns' ! w = agg (ns ! w) (ns ! l)" using j2 w(3) l(3) by (simp add: joined_def)
      show "ns' ! y = ns ! y" if "y < length ns" "isRoot (ns ! y) \<and> y \<noteq> w \<and> y \<noteq> l" for y
      proof -
        have "isRoot (n2 ! y)" using that sameForest_isRoot[OF s2 that(1)] by simp
        then have "ns' ! y = n2 ! y" using j2 that len2 by (simp add: joined_def)
        then show ?thesis using that sameForest_root_nth[OF s2 that(1)] by simp
      qed
      show "isRoot (ns' ! y) = (isRoot (ns ! y) \<and> y \<noteq> l)" if "y < length ns" for y
        using j2 that len2 sameForest_isRoot[OF s2 that] by (simp add: joined_def)
    qed
    from wl j have "\<exists>w l. ((w = rep ns a \<and> l = rep ns b) \<or> (w = rep ns b \<and> l = rep ns a))
                                \<and> joined agg ns w l ns'" by blast
    with m False show ?thesis by (intro exI[of _ True] exI[of _ ns']) simp
  qed
qed
section \<open>Local components: the merge loop\<close>

lemma parent_nodeMerge: "keepsParent nodeMerge"
  by (simp add: nodeMerge_def keepsParent_def)

lemma parent_clumpMerge: "keepsParent clumpMerge"
  by (simp add: clumpMerge_def nodeMerge_def keepsParent_def)

lemma merge_forest:
  assumes "forest ns" "a < length ns" "b < length ns" "keepsParent agg"
  shows "\<exists>ch ns'. merge agg ns a b = Some (ch, ns') \<and> forest ns' \<and> length ns' = length ns"
proof -
  from merge_spec[OF assms] obtain ch ns' where
    m: "merge agg ns a b = Some (ch, ns')" and
    c: "if rep ns a = rep ns b then \<not> ch \<and> sameForest ns ns'
        else ch \<and> (\<exists>w l. ((w = rep ns a \<and> l = rep ns b) \<or> (w = rep ns b \<and> l = rep ns a))
                                \<and> joined agg ns w l ns')" by blast
  have "forest ns' \<and> length ns' = length ns"
  proof (cases "rep ns a = rep ns b")
    case True
    with c have "sameForest ns ns'" by simp
    then show ?thesis using assms(1) sameForest_forest sameForest_length by blast
  next
    case False
    with c obtain w l where "joined agg ns w l ns'" by auto
    then show ?thesis by (simp add: joined_def)
  qed
  with m show ?thesis by blast
qed

lemma mergeTriangles_forest:
  "forest ns \<Longrightarrow> trianglesBelow (length ns) tris
   \<Longrightarrow> \<exists>ns'. mergeTriangles ns tris = Some ns' \<and> forest ns' \<and> length ns' = length ns"
proof (induction tris arbitrary: ns)
  case Nil
  then show ?case by simp
next
  case (Cons t tris)
  obtain a b c where t: "t = (a, b, c)" by (cases t)
  from Cons.prems t have r: "a < length ns" "b < length ns" "c < length ns"
    and rest: "trianglesBelow (length ns) tris" by (auto simp: trianglesBelow_def)
  from merge_forest[OF Cons.prems(1) r(1,2) parent_nodeMerge] obtain ch1 n1 where
    m1: "merge nodeMerge ns a b = Some (ch1, n1)" "forest n1" "length n1 = length ns" by blast
  from merge_forest[OF m1(2) _ _ parent_nodeMerge, of b c] r m1(3) obtain ch2 n2 where
    m2: "merge nodeMerge n1 b c = Some (ch2, n2)" "forest n2" "length n2 = length ns" by auto
  from Cons.IH[OF m2(2)] rest m2(3) obtain ns' where
    "mergeTriangles n2 tris = Some ns'" "forest ns'" "length ns' = length ns" by auto
  with m1 m2 t show ?case by simp
qed

lemma forest_replicate_newNode: "forest (replicate n newNode)"
  unfolding forest_def by (auto intro!: exI reaches.root simp: isRoot_def newNode_def)

lemma allocateClumps_throws:
  "clump_id_max < length cs \<Longrightarrow> \<exists>i\<in>set is. isRoot (nodes ! i)
   \<Longrightarrow> allocateClumps nodes is cs cid = Inl (overflow_error ''Too many clumps'')"
  by (induction "is" arbitrary: cid) auto
section \<open>Local components: allocation of clumps\<close>

lemma allocateClumps_spec:
  assumes "allocateClumps nodes is cs cid = Inr (cs', cid')" and "distinct is"
    and "\<forall>i\<in>set is. i < length cid"
  shows "cs' = cs @ map (\<lambda>i. Clump (nsize (nodes ! i))) (filter (\<lambda>i. isRoot (nodes ! i)) is)
         \<and> length cid' = length cid
         \<and> (\<forall>k<length (filter (\<lambda>i. isRoot (nodes ! i)) is).
               cid' ! (filter (\<lambda>i. isRoot (nodes ! i)) is ! k) = length cs + k)
         \<and> (\<forall>j. j \<notin> set (filter (\<lambda>i. isRoot (nodes ! i)) is) \<longrightarrow> cid' ! j = cid ! j)"
  using assms
proof (induction "is" arbitrary: cs cid)
  case Nil
  then show ?case by simp
next
  case (Cons i "is")
  let ?R = "\<lambda>i. isRoot (nodes ! i)"
  show ?case
  proof (cases "?R i")
    case False
    with Cons.prems have "allocateClumps nodes is cs cid = Inr (cs', cid')" by simp
    from Cons.IH[OF this] Cons.prems False show ?thesis by simp
  next
    case True
    with Cons.prems have nf: "\<not> clump_id_max < length cs"
      and rec: "allocateClumps nodes is (cs @ [Clump (nsize (nodes ! i))]) (cid[i := length cs])
                 = Inr (cs', cid')"
      by (auto split: if_splits)
    from Cons.prems have d: "distinct is" "i \<notin> set is" "i < length cid"
      "\<forall>j\<in>set is. j < length (cid[i := length cs])" by auto
    from Cons.IH[OF rec d(1) d(4)] have
      ih1: "cs' = (cs @ [Clump (nsize (nodes ! i))]) @ map (\<lambda>i. Clump (nsize (nodes ! i))) (filter ?R is)"
      and ih2: "length cid' = length cid"
      and ih3: "\<forall>k<length (filter ?R is). cid' ! (filter ?R is ! k) = length cs + 1 + k"
      and ih4: "\<forall>j. j \<notin> set (filter ?R is) \<longrightarrow> cid' ! j = cid[i := length cs] ! j"
      by simp_all
    have fi: "filter ?R (i # is) = i # filter ?R is" using True by simp
    have a: "cid' ! i = length cs" using ih4 d(2,3) by simp
    have "\<forall>k<length (filter ?R (i # is)). cid' ! (filter ?R (i # is) ! k) = length cs + k"
    proof (intro allI impI)
      fix k assume k: "k < length (filter ?R (i # is))"
      show "cid' ! (filter ?R (i # is) ! k) = length cs + k"
      proof (cases k)
        case 0
        with a fi show ?thesis by simp
      next
        case (Suc k')
        with k fi have "k' < length (filter ?R is)" by simp
        with ih3 Suc fi show ?thesis by simp
      qed
    qed
    moreover have "\<forall>j. j \<notin> set (filter ?R (i # is)) \<longrightarrow> cid' ! j = cid ! j"
      using ih4 fi by auto
    ultimately show ?thesis using ih1 ih2 fi by simp
  qed
qed

lemma computeClumpIds_spec:
  assumes "forest nodes" and "distinct is" and "\<forall>i\<in>set is. i < length nodes"
    and "length cid = length nodes"
  shows "\<exists>cid'. computeClumpIds nodes is cid = Some cid' \<and> length cid' = length cid
           \<and> (\<forall>i\<in>set is. cid' ! i = cid ! rep nodes i)
           \<and> (\<forall>j. j \<notin> set is \<longrightarrow> cid' ! j = cid ! j)"
  using assms
proof (induction "is" arbitrary: nodes cid)
  case Nil
  then show ?case by simp
next
  case (Cons i "is")
  from Cons.prems have il: "i < length nodes" and d: "distinct is" "i \<notin> set is" by auto
  from findRoot_forest[OF Cons.prems(1) il] obtain nodes' where
    fr: "findRoot nodes i = Some (rep nodes i, nodes')" and sf: "sameForest nodes nodes'" by blast
  have f': "forest nodes'" using sf Cons.prems(1) by (rule sameForest_forest)
  have len': "length nodes' = length nodes" using sf by (rule sameForest_length)
  let ?cid1 = "cid[i := cid ! rep nodes i]"
  have "\<forall>j\<in>set is. j < length nodes'" using Cons.prems(3) len' by simp
  moreover have "length ?cid1 = length nodes'" using Cons.prems(4) len' by simp
  ultimately obtain cid' where
    r: "computeClumpIds nodes' is ?cid1 = Some cid'" "length cid' = length ?cid1"
       "\<forall>j\<in>set is. cid' ! j = ?cid1 ! rep nodes' j"
       "\<forall>j. j \<notin> set is \<longrightarrow> cid' ! j = ?cid1 ! j"
    using Cons.IH[OF f' d(1), of ?cid1] by blast
  have repi: "rep nodes i < length nodes" using rep_bounds[OF Cons.prems(1) il] by simp
  have upd: "?cid1 ! rep nodes j = cid ! rep nodes j" if "j < length nodes" for j
  proof (cases "rep nodes j = i")
    case True
    then have "isRoot (nodes ! i)" using rep_bounds[OF Cons.prems(1) that] by simp
    then have "rep nodes i = i" using il by (simp add: rep_root)
    with True il Cons.prems(4) show ?thesis by simp
  next
    case False
    then show ?thesis by simp
  qed
  have "\<forall>j\<in>set (i # is). cid' ! j = cid ! rep nodes j"
  proof
    fix j assume j: "j \<in> set (i # is)"
    show "cid' ! j = cid ! rep nodes j"
    proof (cases "j = i")
      case True
      with r(4) d(2) il Cons.prems(4) show ?thesis by simp
    next
      case False
      with j have js: "j \<in> set is" by simp
      then have jl: "j < length nodes" using Cons.prems(3) by simp
      from r(3) js have "cid' ! j = ?cid1 ! rep nodes' j" by simp
      also have "rep nodes' j = rep nodes j" using sf by (rule sameForest_rep)
      finally show ?thesis using upd[OF jl] by simp
    qed
  qed
  moreover have "\<forall>j. j \<notin> set (i # is) \<longrightarrow> cid' ! j = cid ! j" using r(4) by simp
  ultimately show ?case using fr r(1,2) by simp
qed


lemma reaches_same_parents:
  assumes "length cs' = length cs" and "\<forall>i<length cs. parent (cs' ! i) = parent (cs ! i)"
    and "reaches cs x r"
  shows "reaches cs' x r"
  using assms(3)
proof (induction rule: reaches.induct)
  case (root x)
  from assms(2) root(1) have pe: "parent (cs' ! x) = parent (cs ! x)" by blast
  have "x < length cs'" using root(1) assms(1) by simp
  moreover have "isRoot (cs' ! x)" using root(2) pe by (simp add: isRoot_def)
  ultimately show ?case by (rule reaches.root)
next
  case (step x r)
  from assms(2) step.hyps(1) have pe: "parent (cs' ! x) = parent (cs ! x)" by blast
  have "x < length cs'" using step.hyps(1) assms(1) by simp
  moreover have "\<not> isRoot (cs' ! x)" using step.hyps(2) pe by (simp add: isRoot_def)
  moreover have "reaches cs' (nat (parent (cs' ! x))) r" using step.IH pe by simp
  ultimately show ?case by (rule reaches.step)
qed

lemma sameForest_same_parents:
  assumes "length cs' = length cs" and "\<forall>i<length cs. parent (cs' ! i) = parent (cs ! i)"
  shows "\<forall>x r. reaches cs' x r = reaches cs x r"
proof (intro allI iffI)
  fix x r
  assume "reaches cs x r"
  then show "reaches cs' x r" by (rule reaches_same_parents[OF assms])
next
  fix x r
  assume r': "reaches cs' x r"
  have l: "length cs = length cs'" using assms(1) by simp
  have p: "\<forall>i<length cs'. parent (cs ! i) = parent (cs' ! i)" using assms by simp
  show "reaches cs x r" using l p r' by (rule reaches_same_parents)
qed

lemma forest_same_parents:
  assumes "length cs' = length cs" and "\<forall>i<length cs. parent (cs' ! i) = parent (cs ! i)"
    and "forest cs"
  shows "forest cs'" and "rep cs' x = rep cs x"
proof -
  note eq = sameForest_same_parents[OF assms(1,2)]
  show "forest cs'" using assms(1,3) eq by (simp add: forest_def)
  have "reaches cs' x = reaches cs x" using eq by (simp add: fun_eq_iff)
  then show "rep cs' x = rep cs x" by (simp add: rep_def)
qed

lemma reaches_append: "reaches cs x r \<Longrightarrow> reaches (cs @ xs) x r"
proof (induction rule: reaches.induct)
  case (root x)
  have "x < length (cs @ xs)" using root(1) by simp
  moreover have "isRoot ((cs @ xs) ! x)" using root by (simp add: nth_append)
  ultimately show ?case by (rule reaches.root)
next
  case (step x r)
  have "x < length (cs @ xs)" using step.hyps(1) by simp
  moreover have "\<not> isRoot ((cs @ xs) ! x)" using step.hyps by (simp add: nth_append)
  moreover have "reaches (cs @ xs) (nat (parent ((cs @ xs) ! x))) r"
    using step.IH step.hyps(1) by (simp add: nth_append)
  ultimately show ?case by (rule reaches.step)
qed

lemma forest_extend:
  assumes f: "forest cs" and t: "take (length cs) cs' = cs" and l: "length cs \<le> length cs'"
    and r: "\<forall>c<length cs'. length cs \<le> c \<longrightarrow> isRoot (cs' ! c)"
  shows "forest cs'" and "x < length cs \<Longrightarrow> rep cs' x = rep cs x"
proof -
  have "take (length cs) cs' @ drop (length cs) cs' = cs'" by (rule append_take_drop_id)
  then have eq: "cs @ drop (length cs) cs' = cs'" using t by simp
  have old: "reaches cs' y (rep cs y)" if "y < length cs" for y
    using reaches_append[OF forest_reaches_rep[OF f that], of "drop (length cs) cs'"]
    by (simp only: eq)
  show "forest cs'"
    unfolding forest_def
  proof (intro allI impI)
    fix y assume y: "y < length cs'"
    show "\<exists>r. reaches cs' y r"
    proof (cases "y < length cs")
      case True
      with old show ?thesis by blast
    next
      case False
      with r y have "isRoot (cs' ! y)" by simp
      with y have "reaches cs' y y" by (rule reaches.root)
      then show ?thesis ..
    qed
  qed
  show "rep cs' x = rep cs x" if "x < length cs" using old[OF that] by (rule rep_eq)
qed

lemma countTriangles_spec:
  assumes "\<forall>t\<in>set tris. fst t < length cid \<and> cid ! fst t < length cs"
  shows "\<exists>cs'. countTriangles cid tris cs = Some cs' \<and> length cs' = length cs
           \<and> (\<forall>i<length cs. parent (cs' ! i) = parent (cs ! i)
                              \<and> vertices (cs' ! i) = vertices (cs ! i))
           \<and> (\<forall>i. (\<forall>t\<in>set tris. cid ! fst t \<noteq> i) \<longrightarrow> cs' ! i = cs ! i)"
  using assms
proof (induction tris arbitrary: cs)
  case Nil
  then show ?case by simp
next
  case (Cons t tris)
  obtain a b c where t: "t = (a, b, c)" by (cases t)
  define cs1 where "cs1 = cs[cid ! a := (cs ! (cid ! a))\<lparr>triangles := triangles (cs ! (cid ! a)) + 1\<rparr>]"
  from Cons.prems t have h: "a < length cid" "cid ! a < length cs" by simp_all
  have len1: "length cs1 = length cs" by (simp add: cs1_def)
  have "\<forall>t\<in>set tris. fst t < length cid \<and> cid ! fst t < length cs1"
    using Cons.prems len1 by simp
  from Cons.IH[OF this] obtain cs' where
    r: "countTriangles cid tris cs1 = Some cs'" "length cs' = length cs1"
       "\<forall>i<length cs1. parent (cs' ! i) = parent (cs1 ! i) \<and> vertices (cs' ! i) = vertices (cs1 ! i)"
       "\<forall>i. (\<forall>t\<in>set tris. cid ! fst t \<noteq> i) \<longrightarrow> cs' ! i = cs1 ! i" by blast
  have p1: "parent (cs1 ! i) = parent (cs ! i) \<and> vertices (cs1 ! i) = vertices (cs ! i)"
    if "i < length cs" for i using that by (cases "i = cid ! a") (simp_all add: cs1_def)
  have o1: "cs1 ! i = cs ! i" if "cid ! a \<noteq> i" for i using that by (simp add: cs1_def)
  have c1: "countTriangles cid (t # tris) cs = Some cs'" using r(1) h t by (simp add: cs1_def)
  have c2: "\<forall>i<length cs. parent (cs' ! i) = parent (cs ! i)
                              \<and> vertices (cs' ! i) = vertices (cs ! i)" using r(3) p1 len1 by simp
  have c3: "\<forall>i. (\<forall>t\<in>set (t # tris). cid ! fst t \<noteq> i) \<longrightarrow> cs' ! i = cs ! i"
    using r(4) o1 t by simp
  from c1 c2 c3 r(2) len1 show ?case by simp
qed

lemma allocateClumps_error:
  "allocateClumps nodes is cs cid = Inl e \<Longrightarrow> e = overflow_error ''Too many clumps''"
  by (induction "is" arbitrary: cs cid) (auto split: if_splits)


lemma computeLocalComponents_spec:
  assumes tb: "trianglesBelow n tris"
    and mt: "mergeTriangles (replicate n newNode) tris = Some nodes"
    and fn: "forest nodes" and ln: "length nodes = n"
  shows "computeLocalComponents cs n tris = Some (Inl (overflow_error ''Too many clumps''))
         \<or> (\<exists>cs' cid. computeLocalComponents cs n tris = Some (Inr (cs', cid))
                       \<and> localResult cs nodes cs' cid)"
proof (cases "allocateClumps nodes [0..<n] cs (replicate n 0)")
  case (Inl e)
  then have "e = overflow_error ''Too many clumps''" by (rule allocateClumps_error)
  with Inl mt show ?thesis by (simp add: computeLocalComponents_def)
next
  case (Inr p)
  obtain cs1 cid1 where p: "p = (cs1, cid1)" by (cases p)
  define R where "R = filter (\<lambda>i. isRoot (nodes ! i)) [0..<n]"
  have al: "allocateClumps nodes [0..<n] cs (replicate n 0) = Inr (cs1, cid1)" using Inr p by simp
  have "\<forall>i\<in>set [0..<n]. i < length (replicate n (0::nat))" by simp
  from allocateClumps_spec[OF al distinct_upt this]
  have cs1: "cs1 = cs @ map (\<lambda>i. Clump (nsize (nodes ! i))) R"
    and lc1: "length cid1 = n"
    and c1: "\<forall>k<length R. cid1 ! (R ! k) = length cs + k"
    by (simp_all add: R_def)
  have dR: "distinct R" by (simp add: R_def)
  have len1: "length cs1 = length cs + length R" by (simp add: cs1)
  have h1: "\<forall>i\<in>set [0..<n]. i < length nodes" using ln by simp
  have h2: "length cid1 = length nodes" using lc1 ln by simp
  from computeClumpIds_spec[OF fn distinct_upt h1 h2] obtain cid2 where
    cc: "computeClumpIds nodes [0..<n] cid1 = Some cid2" and lc2': "length cid2 = length cid1"
    and c2: "\<forall>i\<in>set [0..<n]. cid2 ! i = cid1 ! rep nodes i" by blast
  have lc2: "length cid2 = n" using lc2' lc1 by simp
  have key: "\<exists>k<length R. R ! k = rep nodes i \<and> cid2 ! i = length cs + k" if "i < n" for i
  proof -
    have "rep nodes i < n \<and> isRoot (nodes ! rep nodes i)"
      using rep_bounds[OF fn, of i] that ln by simp
    then have "rep nodes i \<in> set R" by (simp add: R_def)
    then obtain k where k: "k < length R" "R ! k = rep nodes i" by (auto simp: in_set_conv_nth)
    have "cid2 ! i = cid1 ! rep nodes i" using c2 that by simp
    with k c1 show ?thesis by auto
  qed
  have Rroot: "R ! k < n \<and> isRoot (nodes ! (R ! k))" if "k < length R" for k
  proof -
    have "R ! k \<in> set R" using that by simp
    then show ?thesis by (simp add: R_def)
  qed
  have pre: "\<forall>t\<in>set tris. fst t < length cid2 \<and> cid2 ! fst t < length cs1"
  proof
    fix t assume "t \<in> set tris"
    with tb have "fst t < n" by (auto simp: trianglesBelow_def)
    with key[OF this] show "fst t < length cid2 \<and> cid2 ! fst t < length cs1"
      using lc2 len1 by auto
  qed
  from countTriangles_spec[OF pre] obtain cs2 where
    ct: "countTriangles cid2 tris cs1 = Some cs2" and l2: "length cs2 = length cs1"
    and keep: "\<forall>i<length cs1. parent (cs2 ! i) = parent (cs1 ! i)
                                 \<and> vertices (cs2 ! i) = vertices (cs1 ! i)"
    and untouched: "\<forall>i. (\<forall>t\<in>set tris. cid2 ! fst t \<noteq> i) \<longrightarrow> cs2 ! i = cs1 ! i" by blast
  have res: "computeLocalComponents cs n tris = Some (Inr (cs2, cid2))"
    using mt al cc ct by (simp add: computeLocalComponents_def)
  have old: "cs2 ! i = cs ! i" if "i < length cs" for i
  proof -
    have "\<forall>t\<in>set tris. cid2 ! fst t \<noteq> i"
    proof
      fix t assume "t \<in> set tris"
      with tb have "fst t < n" by (auto simp: trianglesBelow_def)
      from key[OF this] that show "cid2 ! fst t \<noteq> i" by auto
    qed
    with untouched have "cs2 ! i = cs1 ! i" by simp
    then show ?thesis using that by (simp add: cs1 nth_append)
  qed
  have tk: "take (length cs) cs2 = cs"
    by (rule nth_equalityI) (simp_all add: l2 len1 old)
  have new: "isRoot (cs2 ! c)
           \<and> (\<exists>r<length nodes. isRoot (nodes ! r) \<and> cid2 ! r = c
                  \<and> vertices (cs2 ! c) = word_of_nat (nsize (nodes ! r)))"
    if "c < length cs2" "length cs \<le> c" for c
  proof -
    define k where "k = c - length cs"
    have k: "k < length R" "c = length cs + k" using that l2 len1 by (simp_all add: k_def)
    have c1c: "cs1 ! c = Clump (nsize (nodes ! (R ! k)))" using k by (simp add: cs1 nth_append)
    have cl: "c < length cs1" using that l2 by simp
    from keep cl have pv: "parent (cs2 ! c) = parent (cs1 ! c)"
      "vertices (cs2 ! c) = vertices (cs1 ! c)" by simp_all
    have r1: "isRoot (cs2 ! c)" using pv(1) c1c by (simp add: isRoot_def Clump_def)
    have rr: "R ! k < n" "isRoot (nodes ! (R ! k))" using Rroot[OF k(1)] by simp_all
    have "rep nodes (R ! k) = R ! k" using rr ln by (simp add: rep_root)
    moreover from key[OF rr(1)] obtain k' where
      k': "k' < length R" "R ! k' = rep nodes (R ! k)" "cid2 ! (R ! k) = length cs + k'" by blast
    ultimately have "k' = k" using dR k(1) by (simp add: nth_eq_iff_index_eq)
    with k' k have r2: "cid2 ! (R ! k) = c" by simp
    have r3: "vertices (cs2 ! c) = word_of_nat (nsize (nodes ! (R ! k)))"
      using pv(2) c1c by (simp add: Clump_def)
    from r1 r2 r3 rr ln show ?thesis by blast
  qed
  have inj: "cid2 ! i = cid2 ! j \<longleftrightarrow> rep nodes i = rep nodes j" if "i < n" "j < n" for i j
  proof -
    from key[OF that(1)] obtain k where
      k: "k < length R" "R ! k = rep nodes i" "cid2 ! i = length cs + k" by blast
    from key[OF that(2)] obtain k' where
      k': "k' < length R" "R ! k' = rep nodes j" "cid2 ! j = length cs + k'" by blast
    have "k = k' \<longleftrightarrow> R ! k = R ! k'" using dR k(1) k'(1) by (simp add: nth_eq_iff_index_eq)
    with k k' show ?thesis by simp
  qed
  have bounds: "length cs \<le> cid2 ! i \<and> cid2 ! i < length cs2" if "i < n" for i
    using key[OF that] l2 len1 by auto
  have "map ((!) nodes) [0..<n] = nodes" using map_nth[of nodes] ln by simp
  moreover have "filter isRoot (map ((!) nodes) [0..<n])
                   = map ((!) nodes) (filter (isRoot \<circ> (!) nodes) [0..<n])" by (rule filter_map)
  ultimately have "filter isRoot nodes = map ((!) nodes) (filter (isRoot \<circ> (!) nodes) [0..<n])"
    by simp
  then have "length (filter isRoot nodes) = length (filter (isRoot \<circ> (!) nodes) [0..<n])"
    by simp
  then have lR: "length (filter isRoot nodes) = length R" by (simp add: R_def comp_def)
  have "localResult cs nodes cs2 cid2"
    unfolding localResult_def using lc2 ln l2 len1 lR tk bounds inj new by simp
  with res show ?thesis by blast
qed

lemma localResult_forest:
  assumes "forest cs" "localResult cs nodes cs' cid"
  shows "forest cs'" and "x < length cs \<Longrightarrow> rep cs' x = rep cs x"
proof -
  from assms(2) have t: "take (length cs) cs' = cs" and l: "length cs \<le> length cs'"
    and r: "\<forall>c<length cs'. length cs \<le> c \<longrightarrow> isRoot (cs' ! c)"
    by (simp_all add: localResult_def)
  show "forest cs'" using assms(1) t l r by (rule forest_extend(1))
  show "rep cs' x = rep cs x" if "x < length cs" using assms(1) t l r that by (rule forest_extend(2))
qed
section \<open>Welding one external vertex\<close>

lemma updateKeyMapStep_new:
  "keyMap m key = None \<Longrightarrow>
   updateKeyMapStep vid key cid m
     = Some (True, vid, m\<lparr>keyMap := (keyMap m)(key \<mapsto> \<lparr>vertexId = vid, clumpId = cid\<rparr>)\<rparr>)"
  by (simp add: updateKeyMapStep_def)

lemma decrement_forest:
  assumes f: "forest cs" and r: "r < length cs"
  shows "forest (cs[r := (cs ! r)\<lparr>vertices := v\<rparr>])"
    and "rep (cs[r := (cs ! r)\<lparr>vertices := v\<rparr>]) x = rep cs x"
proof -
  define cs' where "cs' = cs[r := (cs ! r)\<lparr>vertices := v\<rparr>]"
  have l: "length cs' = length cs" by (simp add: cs'_def)
  have p: "\<forall>i<length cs. parent (cs' ! i) = parent (cs ! i)"
  proof (intro allI impI)
    fix i assume "i < length cs"
    then show "parent (cs' ! i) = parent (cs ! i)" by (cases "i = r") (simp_all add: cs'_def)
  qed
  show "forest (cs[r := (cs ! r)\<lparr>vertices := v\<rparr>])"
    using forest_same_parents(1)[OF l p f] by (simp add: cs'_def)
  show "rep (cs[r := (cs ! r)\<lparr>vertices := v\<rparr>]) x = rep cs x"
    using forest_same_parents(2)[OF l p f] by (simp add: cs'_def)
qed

lemma updateKeyMapStep_old:
  assumes f: "forest (clumps m)" and c: "cid < length (clumps m)"
    and k: "keyMap m key = Some ed" and e: "clumpId ed < length (clumps m)"
  shows "\<exists>cs'. updateKeyMapStep vid key cid m = Some (False, vertexId ed, m\<lparr>clumps := cs'\<rparr>)
               \<and> welded (clumps m) cid (clumpId ed) cs'"
proof -
  define cs where "cs = clumps m"
  define a where "a = rep cs cid"
  define b where "b = rep cs (clumpId ed)"
  have f: "forest cs" and c: "cid < length cs" and e: "clumpId ed < length cs"
    using f c e by (simp_all add: cs_def)
  have ab: "a < length cs" "isRoot (cs ! a)" "b < length cs" "isRoot (cs ! b)"
    using rep_bounds[OF f c] rep_bounds[OF f e] by (simp_all add: a_def b_def)
  from merge_spec[OF f c e parent_clumpMerge] obtain ch cs1 where
    m1: "merge clumpMerge cs cid (clumpId ed) = Some (ch, cs1)" and
    sp: "if a = b then \<not> ch \<and> sameForest cs cs1
         else ch \<and> (\<exists>w l. ((w = a \<and> l = b) \<or> (w = b \<and> l = a)) \<and> joined clumpMerge cs w l cs1)"
    unfolding a_def b_def by blast
  have "\<exists>w. (w = a \<or> w = b) \<and> length cs1 = length cs \<and> forest cs1
          \<and> (\<forall>x<length cs. rep cs1 x = (if rep cs x = a \<or> rep cs x = b then w else rep cs x))
          \<and> isRoot (cs1 ! w)
          \<and> vertices (cs1 ! w) = (if a = b then vertices (cs ! w) else vertices (cs ! a) + vertices (cs ! b))
          \<and> (\<forall>y<length cs. isRoot (cs ! y) \<and> y \<noteq> a \<and> y \<noteq> b \<longrightarrow> cs1 ! y = cs ! y \<and> isRoot (cs1 ! y))"
  proof (cases "a = b")
    case True
    with sp have s: "sameForest cs cs1" by simp
    have "length cs1 = length cs" using s by (rule sameForest_length)
    moreover have "forest cs1" using s f by (rule sameForest_forest)
    moreover have "\<forall>x<length cs. rep cs1 x = (if rep cs x = a \<or> rep cs x = b then a else rep cs x)"
      using sameForest_rep[OF s] True by simp
    moreover have "cs1 ! a = cs ! a" using s ab by (simp add: sameForest_root_nth)
    moreover have "\<forall>y<length cs. isRoot (cs ! y) \<and> y \<noteq> a \<and> y \<noteq> b \<longrightarrow> cs1 ! y = cs ! y \<and> isRoot (cs1 ! y)"
      using s by (simp add: sameForest_root_nth)
    ultimately show ?thesis using True ab by (intro exI[of _ a]) simp
  next
    case False
    with sp have "\<exists>w l. ((w = a \<and> l = b) \<or> (w = b \<and> l = a)) \<and> joined clumpMerge cs w l cs1"
      by simp
    then obtain w l where wl: "(w = a \<and> l = b) \<or> (w = b \<and> l = a)"
      and j: "joined clumpMerge cs w l cs1" by blast
    from j have J: "length cs1 = length cs \<and> forest cs1
       \<and> (\<forall>x<length cs. rep cs1 x = (if rep cs x = l then w else rep cs x))
       \<and> cs1 ! w = clumpMerge (cs ! w) (cs ! l)
       \<and> (\<forall>y<length cs. isRoot (cs ! y) \<and> y \<noteq> w \<and> y \<noteq> l \<longrightarrow> cs1 ! y = cs ! y)
       \<and> (\<forall>y<length cs. isRoot (cs1 ! y) \<longleftrightarrow> isRoot (cs ! y) \<and> y \<noteq> l)"
      unfolding joined_def .
    note j1 = J[THEN conjunct1] J[THEN conjunct2, THEN conjunct1]
    note j2 = J[THEN conjunct2, THEN conjunct2, THEN conjunct1]
    note j3 = J[THEN conjunct2, THEN conjunct2, THEN conjunct2, THEN conjunct1]
    note j4 = J[THEN conjunct2, THEN conjunct2, THEN conjunct2, THEN conjunct2, THEN conjunct1]
    note j5 = J[THEN conjunct2, THEN conjunct2, THEN conjunct2, THEN conjunct2, THEN conjunct2]
    have wl': "w < length cs" "isRoot (cs ! w)" "w \<noteq> l" using wl ab False by auto
    have r: "\<forall>x<length cs. rep cs1 x = (if rep cs x = a \<or> rep cs x = b then w else rep cs x)"
      using j2 wl by auto
    have rw: "isRoot (cs1 ! w)" using j5 wl' by simp
    have v: "vertices (cs1 ! w) = vertices (cs ! a) + vertices (cs ! b)"
      using j3 wl by (auto simp: clumpMerge_def)
    have o: "\<forall>y<length cs. isRoot (cs ! y) \<and> y \<noteq> a \<and> y \<noteq> b \<longrightarrow> cs1 ! y = cs ! y \<and> isRoot (cs1 ! y)"
      using j4 j5 wl by auto
    from wl j1 r rw v o False show ?thesis by (intro exI[of _ w]) auto
  qed
  then obtain w where w: "w = a \<or> w = b" and l1: "length cs1 = length cs" and f1: "forest cs1"
    and r1: "\<forall>x<length cs. rep cs1 x = (if rep cs x = a \<or> rep cs x = b then w else rep cs x)"
    and rw: "isRoot (cs1 ! w)"
    and v1: "vertices (cs1 ! w) = (if a = b then vertices (cs ! w) else vertices (cs ! a) + vertices (cs ! b))"
    and o1: "\<forall>y<length cs. isRoot (cs ! y) \<and> y \<noteq> a \<and> y \<noteq> b \<longrightarrow> cs1 ! y = cs ! y \<and> isRoot (cs1 ! y)"
    by blast
  have wlen: "w < length cs" using w ab by auto
  have c1: "cid < length cs1" using c l1 by simp
  from findRoot_forest[OF f1 c1] obtain cs2 where
    fr: "findRoot cs1 cid = Some (rep cs1 cid, cs2)" and s2: "sameForest cs1 cs2" by blast
  have rc: "rep cs1 cid = w" using r1 c by (simp add: a_def)
  have l2: "length cs2 = length cs" using s2 l1 by (simp add: sameForest_length)
  have f2: "forest cs2" using s2 f1 by (rule sameForest_forest)
  have r2: "rep cs2 x = rep cs1 x" for x using s2 by (rule sameForest_rep)
  have e2: "cs2 ! y = cs1 ! y" if "y < length cs" "isRoot (cs1 ! y)" for y
    using sameForest_root_nth[OF s2, of y] that l1 by simp
  define cs' where "cs' = cs2[w := (cs2 ! w)\<lparr>vertices := vertices (cs2 ! w) - 1\<rparr>]"
  have w2: "w < length cs2" using wlen l2 by simp
  have st: "updateKeyMapStep vid key cid m = Some (False, vertexId ed, m\<lparr>clumps := cs'\<rparr>)"
    using k m1 fr rc by (simp add: updateKeyMapStep_def cs_def[symmetric] cs'_def)
  have f': "forest cs'" unfolding cs'_def using f2 w2 by (rule decrement_forest(1))
  have r': "rep cs' x = rep cs2 x" for x unfolding cs'_def using f2 w2 by (rule decrement_forest(2))
  have "welded cs cid (clumpId ed) cs'"
    unfolding welded_def a_def[symmetric] b_def[symmetric]
  proof (intro conjI exI[of _ w] allI impI)
    show "length cs' = length cs" using l2 by (simp add: cs'_def)
    show "forest cs'" by (rule f')
    show "w = a \<or> w = b" by (rule w)
    show "rep cs' x = (if rep cs x = a \<or> rep cs x = b then w else rep cs x)" if "x < length cs" for x
      using r' r2 r1 that by simp
    show "vertices (cs' ! w)
            = (if a = b then vertices (cs ! w) else vertices (cs ! a) + vertices (cs ! b)) - 1"
      using w2 v1 e2[OF wlen rw] by (simp add: cs'_def)
    show "vertices (cs' ! y) = vertices (cs ! y)"
      if "y < length cs" "isRoot (cs ! y) \<and> y \<noteq> a \<and> y \<noteq> b" for y
    proof -
      from o1 that have "cs1 ! y = cs ! y" "isRoot (cs1 ! y)" by simp_all
      moreover have "y \<noteq> w" using that w by auto
      ultimately show ?thesis using e2[OF that(1)] by (simp add: cs'_def)
    qed
  qed
  with st show ?thesis by (auto simp: cs_def)
qed
section \<open>The search loop finds only roots of the forest\<close>

lemma reaches_of_walk_tupled:
  assumes "(case xa of (p, acc) \<Rightarrow> (case p of (ns, x) \<Rightarrow> walk ns x) acc) = Some res"
  shows "(case xa of (p, acc) \<Rightarrow> (case p of (ns, x) \<Rightarrow> \<lambda>acc res. reaches ns x (fst res)) acc) res"
  using assms
proof (induction rule: walk.raw_induct[rotated 1, consumes 1])
  case (1 w nodes x acc res)
  show ?case
  proof (cases "isRoot (nodes ! x)")
    case True
    with 1(2) have "x < length nodes" "res = (x, acc)" by (auto split: if_splits)
    with True show ?thesis by (simp add: reaches.root)
  next
    case False
    with 1(2) have xl: "x < length nodes"
      and "w nodes (nat (parent (nodes ! x))) (x # acc) = Some res" by (auto split: if_splits)
    from 1(1)[OF this(2)] have "reaches nodes (nat (parent (nodes ! x))) (fst res)" .
    with xl False show ?thesis by (rule reaches.step)
  qed
qed

lemma reaches_of_walk:
  assumes "walk ns x acc = Some res"
  shows "reaches ns x (fst res)"
  using reaches_of_walk_tupled[of "((ns, x), acc)" res] assms by simp

lemma forest_iff_findRootConst:
  "forest ns \<longleftrightarrow> (\<forall>x<length ns. findRootConst ns x \<noteq> None)"
proof
  assume "forest ns"
  then show "\<forall>x<length ns. findRootConst ns x \<noteq> None" by (simp add: findRootConst_forest)
next
  assume a: "\<forall>x<length ns. findRootConst ns x \<noteq> None"
  show "forest ns"
    unfolding forest_def
  proof (intro allI impI)
    fix x assume "x < length ns"
    with a obtain res where "walk ns x [] = Some res" by (auto simp: findRootConst_def)
    then have "reaches ns x (fst res)" by (rule reaches_of_walk)
    then show "\<exists>r. reaches ns x r" ..
  qed
qed
section \<open>Roots after a weld\<close>

lemma isForest_forest: "isForest ns \<longleftrightarrow> forest ns"
  by (auto simp: isForest_def forest_iff_findRootConst list_all_iff)

lemma weld_roots:
  assumes f: "forest cs" and a: "a < length cs" and b: "b < length cs"
    and w: "welded cs a b cs'"
  shows "\<exists>w. findRootConst cs' a = Some w \<and> findRootConst cs' b = Some w
             \<and> vertices (cs' ! w)
                  = (if rep cs a = rep cs b then vertices (cs ! rep cs a)
                     else vertices (cs ! rep cs a) + vertices (cs ! rep cs b)) - 1"
proof -
  from w obtain r where l: "length cs' = length cs" and f': "forest cs'"
    and r: "r = rep cs a \<or> r = rep cs b"
    and rp: "\<forall>x<length cs. rep cs' x = (if rep cs x = rep cs a \<or> rep cs x = rep cs b then r else rep cs x)"
    and v: "vertices (cs' ! r) = (if rep cs a = rep cs b then vertices (cs ! r)
                   else vertices (cs ! rep cs a) + vertices (cs ! rep cs b)) - 1"
    unfolding welded_def by blast
  have "rep cs' a = r" "rep cs' b = r" using rp a b by simp_all
  then have "findRootConst cs' a = Some r" "findRootConst cs' b = Some r"
    using findRootConst_forest[OF f'] a b l by simp_all
  moreover have "vertices (cs' ! r) = (if rep cs a = rep cs b then vertices (cs ! rep cs a)
                     else vertices (cs ! rep cs a) + vertices (cs ! rep cs b)) - 1"
    using v r by auto
  ultimately show ?thesis by blast
qed
section \<open>The merge loop computes the connected components\<close>

lemma rtrancl_in_range:
  assumes "E \<subseteq> {..<n} \<times> {..<n}" "(x, y) \<in> E\<^sup>*" "x < n"
  shows "y < n"
  using assms(2,3)
proof (induction rule: rtrancl_induct)
  case base
  then show ?case .
next
  case (step u v)
  with assms(1) show ?case by auto
qed







section \<open>When the clump table overflows\<close>

lemma allocateClumps_overflow:
  "(filter (\<lambda>i. isRoot (nodes ! i)) is \<noteq> []
      \<and> clump_id_max + 1 < length cs + length (filter (\<lambda>i. isRoot (nodes ! i)) is)
    \<longrightarrow> allocateClumps nodes is cs cid = Inl (overflow_error ''Too many clumps''))
   \<and> (\<not> (filter (\<lambda>i. isRoot (nodes ! i)) is \<noteq> []
           \<and> clump_id_max + 1 < length cs + length (filter (\<lambda>i. isRoot (nodes ! i)) is))
        \<longrightarrow> (\<exists>r. allocateClumps nodes is cs cid = Inr r))"
proof (induction "is" arbitrary: cs cid)
  case Nil
  then show ?case by simp
next
  case (Cons i "is")
  show ?case
  proof (cases "isRoot (nodes ! i)")
    case False
    with Cons.IH[of cs cid] show ?thesis by simp
  next
    case True
    show ?thesis
    proof (cases "clump_id_max < length cs")
      case over: True
      with True show ?thesis by simp
    next
      case False
      with True Cons.IH[of "cs @ [Clump (nsize (nodes ! i))]" "cid[i := length cs]"]
      show ?thesis by (cases "filter (\<lambda>i. isRoot (nodes ! i)) is = []") auto
    qed
  qed
qed

lemma roots_count:
  "length nodes = n \<Longrightarrow> length (filter (\<lambda>i. isRoot (nodes ! i)) [0..<n]) = length (filter isRoot nodes)"
proof -
  assume ln: "length nodes = n"
  have "map ((!) nodes) [0..<n] = nodes" using map_nth[of nodes] ln by simp
  moreover have "filter isRoot (map ((!) nodes) [0..<n])
                   = map ((!) nodes) (filter (isRoot \<circ> (!) nodes) [0..<n])" by (rule filter_map)
  ultimately have "filter isRoot nodes = map ((!) nodes) (filter (isRoot \<circ> (!) nodes) [0..<n])"
    by simp
  then have "length (filter isRoot nodes) = length (filter (isRoot \<circ> (!) nodes) [0..<n])"
    by simp
  then show ?thesis by (simp add: comp_def)
qed

lemma computeLocalComponents_total:
  assumes tb: "trianglesBelow n tris"
    and mt: "mergeTriangles (replicate n newNode) tris = Some nodes"
    and fn: "forest nodes" and ln: "length nodes = n"
  shows "if filter isRoot nodes \<noteq> []
            \<and> clump_id_max + 1 < length cs + length (filter isRoot nodes)
         then computeLocalComponents cs n tris = Some (Inl (overflow_error ''Too many clumps''))
         else \<exists>cs' cid. computeLocalComponents cs n tris = Some (Inr (cs', cid))
                \<and> localResult cs nodes cs' cid"
proof -
  let ?R = "filter (\<lambda>i. isRoot (nodes ! i)) [0..<n]"
  let ?over = "filter isRoot nodes \<noteq> []
                 \<and> clump_id_max + 1 < length cs + length (filter isRoot nodes)"
  have lr: "length ?R = length (filter isRoot nodes)" using ln by (rule roots_count)
  then have emp: "?R \<noteq> [] \<longleftrightarrow> filter isRoot nodes \<noteq> []" by (metis length_0_conv)
  note ao = allocateClumps_overflow[of nodes "[0..<n]" cs "replicate n 0"]
  show ?thesis
  proof (cases ?over)
    case True
    with ao lr emp have "allocateClumps nodes [0..<n] cs (replicate n 0)
                     = Inl (overflow_error ''Too many clumps'')" by simp
    then have "computeLocalComponents cs n tris = Some (Inl (overflow_error ''Too many clumps''))"
      using mt by (simp add: computeLocalComponents_def)
    with True show ?thesis by simp
  next
    case False
    with ao lr emp obtain r where r: "allocateClumps nodes [0..<n] cs (replicate n 0) = Inr r"
      by auto
    then have ne: "computeLocalComponents cs n tris \<noteq> Some (Inl (overflow_error ''Too many clumps''))"
      using mt by (simp add: computeLocalComponents_def split: option.splits prod.splits)
    from computeLocalComponents_spec[OF tb mt fn ln, of cs] ne obtain cs' cid where
      "computeLocalComponents cs n tris = Some (Inr (cs', cid))" "localResult cs nodes cs' cid"
      by blast
    with False show ?thesis by auto
  qed
qed
section \<open>Rounding to double precision is monotone\<close>

lemma pow2_powr: "pow2 e = 2 powr real_of_int e"
proof (cases "0 \<le> e")
  case True
  then have "2 powr real_of_int e = 2 powr real (nat e)" by simp
  also have "\<dots> = 2 ^ nat e" by (simp add: powr_realpow)
  finally show ?thesis using True by (simp add: pow2_def)
next
  case False
  have "pow2 e = 1 / 2 ^ nat (- e)" using False by (simp add: pow2_def)
  also have "\<dots> = 1 / 2 powr real (nat (- e))" by (simp add: powr_realpow)
  also have "\<dots> = 2 powr (- real (nat (- e)))" by (simp add: powr_minus_divide)
  also have "\<dots> = 2 powr real_of_int e"
    by (rule arg_cong[of _ _ "\<lambda>r. 2 powr r"]) (use False in simp)
  finally show ?thesis .
qed

lemma pow2_pos: "0 < pow2 e"
  by (simp add: pow2_powr)

lemma pow2_add: "pow2 (a + b) = pow2 a * pow2 b"
  by (simp add: pow2_powr powr_add)

lemma pow2_mono: "a \<le> b \<Longrightarrow> pow2 a \<le> pow2 b"
  by (simp add: pow2_powr)

lemma pow2_nat: "0 \<le> e \<Longrightarrow> pow2 e = of_int (2 ^ nat e)"
  by (simp add: pow2_def)

lemma roundEven_ge_floor: "\<lfloor>x\<rfloor> \<le> roundEven x"
  by (simp add: roundEven_def)

lemma roundEven_le_floor1: "roundEven x \<le> \<lfloor>x\<rfloor> + 1"
  by (simp add: roundEven_def)

lemma roundEven_of_int: "roundEven (of_int k) = k"
  by (simp add: roundEven_def)

lemma roundEven_mono:
  assumes "x \<le> y"
  shows "roundEven x \<le> roundEven y"
proof (cases "\<lfloor>x\<rfloor> = \<lfloor>y\<rfloor>")
  case True
  with assms show ?thesis by (simp add: roundEven_def)
next
  case False
  with assms have "\<lfloor>x\<rfloor> < \<lfloor>y\<rfloor>" using floor_mono[OF assms] by simp
  then have "roundEven x \<le> \<lfloor>y\<rfloor>" using roundEven_le_floor1[of x] by simp
  also have "\<dots> \<le> roundEven y" by (rule roundEven_ge_floor)
  finally show ?thesis .
qed

lemma roundEven_le_int: "x \<le> of_int k \<Longrightarrow> roundEven x \<le> k"
  using roundEven_mono[of x "of_int k"] by (simp add: roundEven_of_int)

lemma roundEven_ge_int: "of_int k \<le> x \<Longrightarrow> k \<le> roundEven x"
  using roundEven_mono[of "of_int k" x] by (simp add: roundEven_of_int)

lemma binade_upper:
  assumes "x \<noteq> 0"
  shows "\<bar>x\<bar> < pow2 (binade x + 1)"
proof -
  have p: "0 < \<bar>x\<bar>" using assms by simp
  have "\<bar>x\<bar> < 2 powr real_of_int (\<lfloor>log 2 \<bar>x\<bar>\<rfloor> + 1)"
    using floor_log_eq_powr_iff[OF p, of 2 "\<lfloor>log 2 \<bar>x\<bar>\<rfloor>"] by simp
  also have "\<dots> = pow2 (\<lfloor>log 2 \<bar>x\<bar>\<rfloor> + 1)" by (simp only: pow2_powr)
  also have "\<dots> \<le> pow2 (binade x + 1)" by (rule pow2_mono) (simp add: binade_def)
  finally show ?thesis .
qed

lemma binade_lower:
  assumes "x \<noteq> 0" and "- 1022 < binade x"
  shows "pow2 (binade x) \<le> \<bar>x\<bar>"
proof -
  have p: "0 < \<bar>x\<bar>" using assms by simp
  from assms(2) have e: "binade x = \<lfloor>log 2 \<bar>x\<bar>\<rfloor>" by (simp add: binade_def max_def split: if_splits)
  have "2 powr real_of_int \<lfloor>log 2 \<bar>x\<bar>\<rfloor> \<le> \<bar>x\<bar>"
    using floor_log_eq_powr_iff[OF p, of 2 "\<lfloor>log 2 \<bar>x\<bar>\<rfloor>"] by simp
  then show ?thesis by (simp only: e pow2_powr)
qed

lemma binade_mono:
  assumes "0 < x" and "x \<le> y"
  shows "binade x \<le> binade y"
proof -
  have "log 2 \<bar>x\<bar> \<le> log 2 \<bar>y\<bar>" using assms by simp
  then have "\<lfloor>log 2 \<bar>x\<bar>\<rfloor> \<le> \<lfloor>log 2 \<bar>y\<bar>\<rfloor>" by (rule floor_mono)
  then show ?thesis by (simp add: binade_def)
qed

lemma binade_eqI:
  assumes "pow2 e \<le> \<bar>x\<bar>" and "\<bar>x\<bar> < pow2 (e + 1)" and "- 1022 \<le> e"
  shows "binade x = e"
proof -
  have p: "0 < \<bar>x\<bar>" using assms(1) pow2_pos[of e] by linarith
  have "\<lfloor>log 2 \<bar>x\<bar>\<rfloor> = e"
    using floor_log_eq_powr_iff[OF p, of 2 e] assms(1,2) by (simp add: pow2_powr)
  then show ?thesis using assms(3) by (simp add: binade_def)
qed

lemma ulp_pos: "0 < ulp x"
  by (simp add: ulp_def pow2_pos)

lemma roundDouble_zero: "roundDouble 0 = 0"
  by (simp add: roundDouble_def)

lemma roundDouble_nonneg:
  assumes "0 \<le> x"
  shows "0 \<le> roundDouble x"
proof (cases "x = 0")
  case True
  then show ?thesis by (simp add: roundDouble_def)
next
  case False
  have "0 \<le> x / ulp x" using assms ulp_pos[of x] by simp
  then have "of_int 0 \<le> x / ulp x" by simp
  then have "0 \<le> roundEven (x / ulp x)" by (rule roundEven_ge_int)
  then show ?thesis using False ulp_pos[of x] by (simp add: roundDouble_def)
qed

lemma roundDouble_upper:
  assumes "0 < x"
  shows "roundDouble x \<le> pow2 (binade x + 1)"
proof -
  have x0: "x \<noteq> 0" using assms by simp
  have "x < pow2 (binade x + 1)" using binade_upper[OF x0] assms by simp
  also have pu: "pow2 (binade x + 1) = pow2 53 * ulp x"
  proof -
    have "pow2 (53 + (binade x - 52)) = pow2 53 * pow2 (binade x - 52)" by (rule pow2_add)
    moreover have "53 + (binade x - 52) = binade x + 1" by simp
    ultimately show ?thesis by (simp add: ulp_def)
  qed
  finally have "x / ulp x \<le> pow2 53" using ulp_pos[of x] by (simp add: field_simps)
  then have "x / ulp x \<le> of_int (2 ^ 53)" by (simp add: pow2_nat)
  then have "roundEven (x / ulp x) \<le> 2 ^ 53" by (rule roundEven_le_int)
  then have "real_of_int (roundEven (x / ulp x)) \<le> pow2 53"
    by (simp add: pow2_nat)
  then have "roundDouble x \<le> pow2 53 * ulp x"
    using x0 ulp_pos[of x] by (simp add: roundDouble_def)
  also have "pow2 53 * ulp x = pow2 (binade x + 1)" by (simp only: pu)
  finally show ?thesis .
qed

lemma roundDouble_lower:
  assumes "0 < x" and "- 1022 < binade x"
  shows "pow2 (binade x) \<le> roundDouble x"
proof -
  have x0: "x \<noteq> 0" using assms by simp
  have "pow2 (binade x) \<le> x" using binade_lower[OF x0 assms(2)] assms(1) by simp
  moreover have e: "pow2 (binade x) = pow2 52 * ulp x"
  proof -
    have "pow2 (52 + (binade x - 52)) = pow2 52 * pow2 (binade x - 52)" by (rule pow2_add)
    moreover have "52 + (binade x - 52) = binade x" by simp
    ultimately show ?thesis by (simp add: ulp_def)
  qed
  ultimately have "pow2 52 \<le> x / ulp x" using ulp_pos[of x] by (simp add: field_simps)
  then have "of_int (2 ^ 52) \<le> x / ulp x" by (simp add: pow2_nat)
  then have "2 ^ 52 \<le> roundEven (x / ulp x)" by (rule roundEven_ge_int)
  then have "pow2 52 \<le> real_of_int (roundEven (x / ulp x))"
    by (simp add: pow2_nat)
  then have "pow2 52 * ulp x \<le> roundDouble x"
    using x0 ulp_pos[of x] by (simp add: roundDouble_def)
  then show ?thesis by (simp only: e)
qed

lemma roundDouble_mono:
  assumes "0 \<le> x" and "x \<le> y"
  shows "roundDouble x \<le> roundDouble y"
proof (cases "x = 0")
  case True
  then show ?thesis using roundDouble_nonneg[of y] assms by (simp add: roundDouble_zero)
next
  case False
  then have x: "0 < x" and y: "0 < y" using assms by simp_all
  have le: "binade x \<le> binade y" using x assms(2) by (rule binade_mono)
  show ?thesis
  proof (cases "binade x = binade y")
    case True
    then have u: "ulp y = ulp x" by (simp add: ulp_def)
    have "x / ulp x \<le> y / ulp x" using assms(2) ulp_pos[of x] by (simp add: divide_right_mono)
    then have "roundEven (x / ulp x) \<le> roundEven (y / ulp x)" by (rule roundEven_mono)
    then have "real_of_int (roundEven (x / ulp x)) * ulp x
                 \<le> real_of_int (roundEven (y / ulp x)) * ulp x"
      using ulp_pos[of x] by (simp add: mult_right_mono)
    then show ?thesis using x y u by (simp add: roundDouble_def)
  next
    case False
    with le have lt: "binade x + 1 \<le> binade y" by simp
    have "- 1022 \<le> binade x" by (simp add: binade_def)
    with lt have ny: "- 1022 < binade y" by simp
    have "roundDouble x \<le> pow2 (binade x + 1)" using x by (rule roundDouble_upper)
    also have "\<dots> \<le> pow2 (binade y)" using lt by (rule pow2_mono)
    also have "\<dots> \<le> roundDouble y" using y ny by (rule roundDouble_lower)
    finally show ?thesis .
  qed
qed

lemma roundDouble_nat:
  assumes "n < 2 ^ 53"
  shows "roundDouble (real n) = real n"
proof (cases "n = 0")
  case True
  then show ?thesis by (simp add: roundDouble_zero)
next
  case False
  define x where "x = real n"
  define e where "e = binade x"
  have x1: "1 \<le> x" and x0: "x \<noteq> 0" and xp: "0 < x" using False by (simp_all add: x_def)
  have "0 \<le> log 2 \<bar>x\<bar>" using x1 by simp
  then have "0 \<le> \<lfloor>log 2 \<bar>x\<bar>\<rfloor>" by simp
  then have e0: "0 \<le> e" by (simp add: e_def binade_def)
  then have "- 1022 < binade x" by (simp add: e_def)
  from binade_lower[OF x0 this] have lo: "pow2 e \<le> x" using xp by (simp add: e_def)
  have "x < 2 ^ 53" using assms unfolding x_def by (metis of_nat_less_iff of_nat_numeral of_nat_power)
  then have hi: "x < pow2 53" by (simp add: pow2_def)
  have e52: "e \<le> 52"
  proof (rule ccontr)
    assume "\<not> e \<le> 52"
    then have "53 \<le> e" by simp
    then have "pow2 53 \<le> pow2 e" by (rule pow2_mono)
    with lo hi show False by linarith
  qed
  define k where "k = nat (52 - e)"
  have ke: "int k = 52 - e" using e52 by (simp add: k_def)
  have "pow2 (int k + (e - 52)) = pow2 (int k) * pow2 (e - 52)" by (rule pow2_add)
  moreover have "int k + (e - 52) = 0" using ke by simp
  ultimately have one: "pow2 (int k) * ulp x = 1" by (simp add: ulp_def e_def pow2_def)
  have pk: "pow2 (int k) = real_of_int (2 ^ k)" using pow2_nat[of "int k"] by simp
  have "x / ulp x = x * pow2 (int k)" using one ulp_pos[of x] by (simp add: field_simps)
  also have "\<dots> = real_of_int (int n * 2 ^ k)" by (simp add: x_def pk)
  finally have "roundEven (x / ulp x) = int n * 2 ^ k" by (simp only: roundEven_of_int)
  then have "roundDouble x = real_of_int (int n * 2 ^ k) * ulp x"
    using x0 by (simp add: roundDouble_def)
  also have "\<dots> = x * (pow2 (int k) * ulp x)" by (simp add: x_def pk)
  also have "\<dots> = x" by (simp only: one mult_1_right)
  finally show ?thesis by (simp add: x_def)
qed

lemma cl_uint_of_double_small:
  assumes "0 \<le> x" and "x < 4294967296"
  shows "cl_uint_of_double x = nat \<lfloor>x\<rfloor>"
proof -
  have f0: "0 \<le> \<lfloor>x\<rfloor>" using assms(1) by simp
  have f1: "\<lfloor>x\<rfloor> < 4294967296" using assms(2) by (simp add: floor_less_iff)
  then have "\<lfloor>x\<rfloor> mod 4294967296 = \<lfloor>x\<rfloor>" using f0 by simp
  then show ?thesis using assms(1) f0 f1 by (simp add: cl_uint_of_double_def)
qed

lemma thresholdVertices_zero: "thresholdVertices n 0 = 0"
  by (simp add: thresholdVertices_def roundDouble_zero cl_uint_of_double_def)

lemma thresholdVertices_mono:
  assumes n: "n < 4294967296" and t: "0 \<le> t1" "t1 \<le> t2" "t2 \<le> 1"
  shows "thresholdVertices n t1 \<le> thresholdVertices n t2" and "thresholdVertices n t2 \<le> n"
proof -
  have "n < 2 ^ 53" using n by simp
  then have rn: "roundDouble (real n) = real n" by (rule roundDouble_nat)
  define p1 where "p1 = real n * t1"
  define p2 where "p2 = real n * t2"
  have p: "0 \<le> p1" "p1 \<le> p2" "p2 \<le> real n"
    using t by (simp_all add: p1_def p2_def mult_left_mono mult_left_le)
  have r0: "0 \<le> roundDouble p1" using p(1) by (rule roundDouble_nonneg)
  have r1: "roundDouble p1 \<le> roundDouble p2" using p(1,2) by (rule roundDouble_mono)
  have "0 \<le> p2" using p(1,2) by simp
  then have "roundDouble p2 \<le> roundDouble (real n)" using p(3) by (rule roundDouble_mono)
  then have r2: "roundDouble p2 \<le> real n" by (simp only: rn)
  have b: "real n < 4294967296" using n by simp
  have c1: "cl_uint_of_double (roundDouble p1) = nat \<lfloor>roundDouble p1\<rfloor>"
    using r0 r1 r2 b by (intro cl_uint_of_double_small) simp_all
  have c2: "cl_uint_of_double (roundDouble p2) = nat \<lfloor>roundDouble p2\<rfloor>"
    using r0 r1 r2 b by (intro cl_uint_of_double_small) simp_all
  have "\<lfloor>roundDouble p1\<rfloor> \<le> \<lfloor>roundDouble p2\<rfloor>" using r1 by (rule floor_mono)
  then show "thresholdVertices n t1 \<le> thresholdVertices n t2"
    unfolding thresholdVertices_def rn p1_def[symmetric] p2_def[symmetric] c1 c2 by simp
  have "\<lfloor>roundDouble p2\<rfloor> \<le> \<lfloor>real n\<rfloor>" using r2 by (rule floor_mono)
  then show "thresholdVertices n t2 \<le> n"
    unfolding thresholdVertices_def rn p2_def[symmetric] c2 by simp
qed

lemma roundDouble_eval:
  assumes "pow2 e \<le> \<bar>x\<bar>" and "\<bar>x\<bar> < pow2 (e + 1)" and "- 1022 \<le> e"
  shows "roundDouble x = of_int (roundEven (x / pow2 (e - 52))) * pow2 (e - 52)"
proof -
  have "binade x = e" using assms by (rule binade_eqI)
  moreover have "x \<noteq> 0" using assms(1) pow2_pos[of e] by auto
  ultimately show ?thesis by (simp add: roundDouble_def ulp_def)
qed
section \<open>The two passes of \<^verbatim>\<open>BigMesh\<close>\<close>

lemma welded_validIds:
  assumes "validIds m" "welded (clumps m) a b cs'"
  shows "validIds (m\<lparr>clumps := cs'\<rparr>)"
  using assms by (simp add: validIds_def welded_def)









section \<open>Ingest into a \<^verbatim>\<open>StxxlMesh\<close>\<close>

lemma updateKeyMapLoop_rule:
  fixes P :: "nat list \<Rightarrow> nat \<Rightarrow> nat list \<Rightarrow> keymap_mesh \<Rightarrow> bool"
  assumes init: "P is nk it m"
    and sound: "\<And>is nk it m. P is nk it m \<Longrightarrow>
                  forest (clumps m) \<and> validIds m
                  \<and> (\<forall>i\<in>set is. cid ! (i + nInt) < length (clumps m))"
    and new: "\<And>i is nk it m. P (i # is) nk it m \<Longrightarrow> keyMap m (hKeys ! i) = None \<Longrightarrow>
                P is (nk + 1) (it[i := cl_uint (vo + nk)])
                  (m\<lparr>keyMap := (keyMap m)(hKeys ! i \<mapsto>
                        \<lparr>vertexId = cl_uint (vo + nk), clumpId = cid ! (i + nInt)\<rparr>)\<rparr>)"
    and old: "\<And>i is nk it m ed cs'. P (i # is) nk it m \<Longrightarrow> keyMap m (hKeys ! i) = Some ed \<Longrightarrow>
                welded (clumps m) (cid ! (i + nInt)) (clumpId ed) cs' \<Longrightarrow>
                P is nk (it[i := vertexId ed]) (m\<lparr>clumps := cs'\<rparr>)"
  shows "\<exists>nk' it' m'. updateKeyMapLoop vo hKeys cid nInt is nk it m = Some (nk', it', m')
           \<and> P [] nk' it' m'"
  using init
proof (induction "is" arbitrary: nk it m)
  case Nil
  then show ?case by simp
next
  case (Cons i "is")
  define key where "key = hKeys ! i"
  define c where "c = cid ! (i + nInt)"
  from sound[OF Cons.prems] have f: "forest (clumps m)" and v: "validIds m"
    and cl: "c < length (clumps m)" by (simp_all add: c_def)
  show ?case
  proof (cases "keyMap m key")
    case None
    define m1 where "m1 = m\<lparr>keyMap := (keyMap m)(key \<mapsto> \<lparr>vertexId = cl_uint (vo + nk), clumpId = c\<rparr>)\<rparr>"
    have st: "updateKeyMapStep (cl_uint (vo + nk)) key c m = Some (True, cl_uint (vo + nk), m1)"
      using None by (simp add: updateKeyMapStep_new m1_def)
    have "P is (nk + 1) (it[i := cl_uint (vo + nk)]) m1"
      using new[OF Cons.prems] None by (simp add: key_def c_def m1_def)
    from Cons.IH[OF this] obtain nk' it' m' where
      r: "updateKeyMapLoop vo hKeys cid nInt is (nk + 1) (it[i := cl_uint (vo + nk)]) m1
            = Some (nk', it', m')" "P [] nk' it' m'" by blast
    have "updateKeyMapLoop vo hKeys cid nInt (i # is) nk it m = Some (nk', it', m')"
      using st r(1) by (simp add: key_def c_def)
    with r(2) show ?thesis by blast
  next
    case (Some ed)
    have el: "clumpId ed < length (clumps m)" using Some v by (simp add: validIds_def)
    from updateKeyMapStep_old[OF f cl Some el, of "cl_uint (vo + nk)"] obtain cs' where
      st: "updateKeyMapStep (cl_uint (vo + nk)) key c m
             = Some (False, vertexId ed, m\<lparr>clumps := cs'\<rparr>)"
      and w: "welded (clumps m) c (clumpId ed) cs'" by blast
    have "P is nk (it[i := vertexId ed]) (m\<lparr>clumps := cs'\<rparr>)"
      using old[OF Cons.prems, of ed cs'] Some w by (simp add: key_def c_def)
    from Cons.IH[OF this] obtain nk' it' m' where
      r: "updateKeyMapLoop vo hKeys cid nInt is nk (it[i := vertexId ed]) (m\<lparr>clumps := cs'\<rparr>)
            = Some (nk', it', m')" "P [] nk' it' m'" by blast
    have "updateKeyMapLoop vo hKeys cid nInt (i # is) nk it m = Some (nk', it', m')"
      using st r(1) by (simp add: key_def c_def)
    with r(2) show ?thesis by blast
  qed
qed

lemma endLength_ge: "L \<le> endLength L vs"
proof (induction vs arbitrary: L)
  case Nil
  then show ?case by simp
next
  case (Cons v vs)
  have "(if v = L then L + 1 else L) \<le> endLength (if v = L then L + 1 else L) vs" by (rule Cons.IH)
  then show ?case by (simp split: if_splits)
qed

lemma tracked_append:
  "tracked L (vs @ [v]) \<longleftrightarrow> tracked L vs \<and> v \<le> endLength L vs"
  by (induction vs arbitrary: L) simp_all

lemma endLength_append:
  "endLength L (vs @ [v]) = (if v = endLength L vs then endLength L vs + 1 else endLength L vs)"
  by (induction vs arbitrary: L) simp_all

lemma tracked_below:
  "tracked L vs \<Longrightarrow> v \<in> set vs \<Longrightarrow> v < endLength L vs"
proof (induction vs arbitrary: L)
  case Nil
  then show ?case by simp
next
  case (Cons u vs)
  define L' where "L' = (if u = L then L + 1 else L)"
  from Cons.prems(1) have u: "u \<le> L" and t: "tracked L' vs" by (simp_all add: L'_def)
  have e: "endLength L (u # vs) = endLength L' vs" by (simp add: L'_def)
  show ?case
  proof (cases "v \<in> set vs")
    case True
    from Cons.IH[OF t True] e show ?thesis by simp
  next
    case False
    with Cons.prems(2) have "v = u" by simp
    moreover have "u < L'" if "u = L" using that by (simp add: L'_def)
    moreover have "u < L'" if "u \<noteq> L" using that u by (simp add: L'_def)
    ultimately have "v < L'" by blast
    also have "L' \<le> endLength L' vs" by (rule endLength_ge)
    finally show ?thesis using e by simp
  qed
qed

lemma storeExternal_spec:
  assumes "\<forall>i\<in>set is. cid ! (nInt + i) < B"
  shows "\<exists>app. storeExternal tv cid nInt it is vs = vs @ app
           \<and> length vs + length app = endLength (length vs) (map ((!) it) is)
           \<and> (\<forall>p\<in>set app. snd p < B)"
  using assms
proof (induction "is" arbitrary: vs)
  case Nil
  then show ?case by simp
next
  case (Cons i "is")
  define vs1 where "vs1 = (if it ! i = length vs then vs @ [(tv ! (nInt + i), cid ! (nInt + i))] else vs)"
  from Cons.prems have b: "cid ! (nInt + i) < B" and r: "\<forall>j\<in>set is. cid ! (nInt + j) < B"
    by simp_all
  from Cons.IH[OF r, of vs1] obtain app where
    a: "storeExternal tv cid nInt it is vs1 = vs1 @ app"
       "length vs1 + length app = endLength (length vs1) (map ((!) it) is)"
       "\<forall>p\<in>set app. snd p < B" by blast
  have l1: "length vs1 = (if it ! i = length vs then length vs + 1 else length vs)"
    by (simp add: vs1_def)
  show ?case
  proof (cases "it ! i = length vs")
    case True
    then have "storeExternal tv cid nInt it (i # is) vs
                 = vs @ ((tv ! (nInt + i), cid ! (nInt + i)) # app)"
      using a(1) by (simp add: vs1_def)
    moreover have "length vs + length ((tv ! (nInt + i), cid ! (nInt + i)) # app)
                     = endLength (length vs) (map ((!) it) (i # is))"
      using a(2) True l1 by simp
    moreover have "\<forall>p\<in>set ((tv ! (nInt + i), cid ! (nInt + i)) # app). snd p < B"
      using a(3) b by simp
    ultimately show ?thesis by blast
  next
    case False
    then have "storeExternal tv cid nInt it (i # is) vs = vs @ app"
      using a(1) by (simp add: vs1_def)
    moreover have "length vs + length app = endLength (length vs) (map ((!) it) (i # is))"
      using a(2) False l1 by simp
    ultimately show ?thesis using a(3) by blast
  qed
qed


lemma endLength_le: "endLength L vs \<le> L + length vs"
proof (induction vs arbitrary: L)
  case Nil
  then show ?case by simp
next
  case (Cons v vs)
  have "endLength (if v = L then L + 1 else L) vs \<le> (if v = L then L + 1 else L) + length vs"
    by (rule Cons.IH)
  then show ?case by (simp split: if_splits)
qed

lemma cl_uint_le: "cl_uint x \<le> x"
  by (simp add: cl_uint_def)

lemma cl_uint_add: "cl_uint (cl_uint a + b) = cl_uint (a + b)"
  by (simp add: cl_uint_def mod_add_left_eq)

lemma cl_uint_lt: "cl_uint x < 4294967296"
  by (simp add: cl_uint_def)

lemma cl_uint_id: "x < 4294967296 \<Longrightarrow> cl_uint x = x"
  by (simp add: cl_uint_def)

lemma StxxlMesh_add_spec:
  assumes wf: "wellFormed f" and inv: "storeInv m"
  shows "if localComponents f \<noteq> 0
            \<and> clump_id_max + 1 < length (clumps m) + localComponents f
         then StxxlMesh_add f m = Some (Inl (overflow_error ''Too many clumps''))
         else \<exists>m'. StxxlMesh_add f m = Some (Inr m') \<and> storeInv m'
                \<and> length (clumps m') = length (clumps m) + localComponents f
                \<and> length (meshVertices m) + numInternalVertices f \<le> length (meshVertices m')
                \<and> length (meshVertices m') \<le> length (meshVertices m) + numVertices f
                \<and> length (meshTriangles m')
                     = length (meshTriangles m) + length (hTriangles f)"
proof -
  define n where "n = length (hVertices f)"
  define nInt where "nInt = numInternalVertices f"
  define E where "E = length (hVertexKeys f)"
  define prior where "prior = length (meshVertices m)"
  define vo where "vo = prior + nInt"
  from wf have w: "nInt \<le> n" "E = n - nInt" "trianglesBelow n (hTriangles f)"
    by (simp_all add: wellFormed_def n_def nInt_def E_def)
  have nt: "\<not> resizeThrows f" and ne: "numExternalVertices f = E"
    using w(1,2) by (simp_all add: resizeThrows_def numExternalVertices_def size_t_sub_def
        numVertices_def n_def nInt_def)
  from inv have f1: "forest (clumps m)" and v1: "validIds m"
    and sv: "\<forall>vc\<in>set (meshVertices m). snd vc < length (clumps m)"
    and kv: "\<forall>k ed. keyMap m k = Some ed \<longrightarrow> vertexId ed < prior"
    and tv: "trianglesBelow prior (meshTriangles m)"
    by (simp_all add: storeInv_def prior_def)
  from mergeTriangles_forest[OF forest_replicate_newNode, of n "hTriangles f"] w(3) obtain nodes where
    nd: "mergeTriangles (replicate n newNode) (hTriangles f) = Some nodes" "forest nodes"
        "length nodes = n" by auto
  have lc: "localComponents f = length (filter isRoot nodes)"
    using nd(1) by (simp add: localComponents_def numVertices_def n_def)
  define over where "over \<longleftrightarrow> localComponents f \<noteq> 0
                  \<and> clump_id_max + 1 < length (clumps m) + localComponents f"
  have ov: "over \<longleftrightarrow> filter isRoot nodes \<noteq> []
                  \<and> clump_id_max + 1 < length (clumps m) + length (filter isRoot nodes)"
    by (simp add: over_def lc)
  note tot = computeLocalComponents_total[OF w(3) nd, of "clumps m"]
  show ?thesis
  proof (cases over)
    case True
    with tot ov have "computeLocalComponents (clumps m) n (hTriangles f)
              = Some (Inl (overflow_error ''Too many clumps''))" by simp
    then have "StxxlMesh_add f m = Some (Inl (overflow_error ''Too many clumps''))"
      using nt by (simp add: StxxlMesh_add_def numVertices_def n_def)
    then show ?thesis using True by (simp add: over_def)
  next
    case False
    with tot ov obtain cs' cid where
      cl: "computeLocalComponents (clumps m) n (hTriangles f) = Some (Inr (cs', cid))"
      and lr: "localResult (clumps m) nodes cs' cid" by auto
    have lcs: "length cs' = length (clumps m) + localComponents f"
      using lr lc by (simp add: localResult_def)
    define mk :: keymap_mesh where "mk = \<lparr>clumps = cs', keyMap = keyMap m\<rparr>"
    have lcid: "length cid = n" using lr nd(3) by (simp add: localResult_def)
    have bnd: "\<forall>i<n. cid ! i < length cs'" using lr nd(3) unfolding localResult_def by blast
    have grow: "length (clumps m) \<le> length cs'" using lcs by simp
    have fk: "forest cs'" using localResult_forest(1)[OF f1 lr] .
    have vk: "validIds mk" using v1 grow by (fastforce simp: validIds_def mk_def)
    define P :: "nat list \<Rightarrow> nat \<Rightarrow> nat list \<Rightarrow> keymap_mesh \<Rightarrow> bool" where
      "P is nk it mm \<longleftrightarrow>
         forest (clumps mm) \<and> validIds mm \<and> length (clumps mm) = length cs'
         \<and> length it = E \<and> length is \<le> E \<and> is = [E - length is..<E]
         \<and> tracked vo (take (E - length is) it)
         \<and> (\<forall>k ed. keyMap mm k = Some ed
               \<longrightarrow> vertexId ed < endLength vo (take (E - length is) it))
         \<and> (endLength vo (take (E - length is) it) = vo + nk
              \<or> 4294967296 \<le> endLength vo (take (E - length is) it))"
      for "is" nk it mm
    have kv': "\<forall>k ed. keyMap m k = Some ed \<longrightarrow> vertexId ed < vo"
    proof (intro allI impI)
      fix k ed assume "keyMap m k = Some ed"
      with kv have "vertexId ed < prior" by blast
      then show "vertexId ed < vo" by (simp add: vo_def)
    qed
    have init: "P [0..<E] 0 (replicate E 0) mk"
      unfolding P_def using fk vk kv' by (simp add: mk_def)
    have sound: "forest (clumps mm) \<and> validIds mm
                  \<and> (\<forall>i\<in>set is. cid ! (i + nInt) < length (clumps mm))"
      if "P is nk it mm" for "is" nk it mm
    proof -
      from that have a: "forest (clumps mm)" "validIds mm" "length (clumps mm) = length cs'"
        "length is \<le> E" "is = [E - length is..<E]" by (simp_all add: P_def)
      have "cid ! (i + nInt) < length (clumps mm)" if "i \<in> set is" for i
      proof -
        from that a(5) have "i \<in> set [E - length is..<E]" by simp
        then have "i < E" by simp
        then have "i + nInt < n" using w by simp
        with bnd a(3) show ?thesis by simp
      qed
      with a show ?thesis by simp
    qed
    have new: "P is (nk + 1) (it[i := cl_uint (cl_uint vo + nk)])
                  (mm\<lparr>keyMap := (keyMap mm)(hVertexKeys f ! i \<mapsto>
                        \<lparr>vertexId = cl_uint (cl_uint vo + nk), clumpId = cid ! (i + nInt)\<rparr>)\<rparr>)"
      if p: "P (i # is) nk it mm" and kn: "keyMap mm (hVertexKeys f ! i) = None"
      for i "is" nk it mm
    proof -
      define i0 where "i0 = E - length (i # is)"
      define L where "L = endLength vo (take i0 it)"
      define v where "v = cl_uint (cl_uint vo + nk)"
      from p have a: "forest (clumps mm)" "validIds mm" "length (clumps mm) = length cs'"
        "length it = E" "length (i # is) \<le> E" "i # is = [i0..<E]"
        "tracked vo (take i0 it)"
        "\<forall>k ed. keyMap mm k = Some ed \<longrightarrow> vertexId ed < L"
        "L = vo + nk \<or> 4294967296 \<le> L"
        by (simp_all add: P_def i0_def L_def)
      from a(6)[symmetric] have i: "i = i0" and is': "is = [i0 + 1..<E]" and iE: "i0 < E"
        by (auto simp: upt_eq_Cons_conv)
      have e1: "E - length is = i0 + 1" using a(5) by (simp add: i0_def)
      have tk: "take (i0 + 1) (it[i := v]) = take i0 it @ [v]"
        using iE a(4) i by (simp add: take_Suc_conv_app_nth)
      have vv: "v = cl_uint (vo + nk)" by (simp add: v_def cl_uint_add)
      have vL: "v \<le> L"
      proof (cases "L = vo + nk")
        case True
        then show ?thesis using cl_uint_le[of "vo + nk"] by (simp add: vv)
      next
        case False
        with a(9) have "4294967296 \<le> L" by simp
        then show ?thesis using cl_uint_lt[of "vo + nk"] by (simp add: vv)
      qed
      define L' where "L' = (if v = L then L + 1 else L)"
      have eL: "endLength vo (take (i0 + 1) (it[i := v])) = L'"
        unfolding tk by (simp add: endLength_append L_def L'_def)
      have t': "tracked vo (take (i0 + 1) (it[i := v]))"
        unfolding tk using a(7) vL by (simp add: tracked_append L_def)
      have vlt: "v < L'" using vL by (simp add: L'_def)
      have LL: "L \<le> L'" by (simp add: L'_def)
      have k': "\<forall>k ed. ((keyMap mm)(hVertexKeys f ! i \<mapsto>
                        \<lparr>vertexId = v, clumpId = cid ! (i + nInt)\<rparr>)) k = Some ed
                  \<longrightarrow> vertexId ed < L'"
      proof (intro allI impI)
        fix k ed
        assume h: "((keyMap mm)(hVertexKeys f ! i \<mapsto>
                        \<lparr>vertexId = v, clumpId = cid ! (i + nInt)\<rparr>)) k = Some ed"
        show "vertexId ed < L'"
        proof (cases "k = hVertexKeys f ! i")
          case True
          with h have "ed = \<lparr>vertexId = v, clumpId = cid ! (i + nInt)\<rparr>" by simp
          then show ?thesis using vlt by simp
        next
          case False
          with h have "keyMap mm k = Some ed" by simp
          with a(8) have "vertexId ed < L" by blast
          with LL show ?thesis by simp
        qed
      qed
      have c': "L' = vo + (nk + 1) \<or> 4294967296 \<le> L'"
      proof (cases "L = vo + nk")
        case True
        show ?thesis
        proof (cases "v = L")
          case True
          with \<open>L = vo + nk\<close> show ?thesis by (simp add: L'_def)
        next
          case False
          with True have "cl_uint (vo + nk) \<noteq> vo + nk" by (simp add: vv)
          then have "\<not> vo + nk < 4294967296" using cl_uint_id[of "vo + nk"] by auto
          with True False show ?thesis by (simp add: L'_def)
        qed
      next
        case False
        with a(9) LL show ?thesis by simp
      qed
      have vd: "validIds (mm\<lparr>keyMap := (keyMap mm)(hVertexKeys f ! i \<mapsto>
                        \<lparr>vertexId = v, clumpId = cid ! (i + nInt)\<rparr>)\<rparr>)"
      proof -
        have "i + nInt < n" using iE i w by simp
        with bnd a(3) have "cid ! (i + nInt) < length (clumps mm)" by simp
        with a(2) show ?thesis by (simp add: validIds_def)
      qed
      show ?thesis
        unfolding P_def v_def[symmetric] e1
        using a(1,3,4,5) is' vd t' k' c' eL iE by simp
    qed
    have old: "P is nk (it[i := vertexId ed]) (mm\<lparr>clumps := cs2\<rparr>)"
      if p: "P (i # is) nk it mm" and ks: "keyMap mm (hVertexKeys f ! i) = Some ed"
        and wd: "welded (clumps mm) (cid ! (i + nInt)) (clumpId ed) cs2"
      for i "is" nk it mm ed cs2
    proof -
      define i0 where "i0 = E - length (i # is)"
      define L where "L = endLength vo (take i0 it)"
      define v where "v = vertexId ed"
      from p have a: "forest (clumps mm)" "validIds mm" "length (clumps mm) = length cs'"
        "length it = E" "length (i # is) \<le> E" "i # is = [i0..<E]"
        "tracked vo (take i0 it)"
        "\<forall>k ed. keyMap mm k = Some ed \<longrightarrow> vertexId ed < L"
        "L = vo + nk \<or> 4294967296 \<le> L"
        by (simp_all add: P_def i0_def L_def)
      from a(6)[symmetric] have i: "i = i0" and is': "is = [i0 + 1..<E]" and iE: "i0 < E"
        by (auto simp: upt_eq_Cons_conv)
      have e1: "E - length is = i0 + 1" using a(5) by (simp add: i0_def)
      have tk: "take (i0 + 1) (it[i := v]) = take i0 it @ [v]"
        using iE a(4) i by (simp add: take_Suc_conv_app_nth)
      have vL: "v < L" using a(8) ks by (simp add: v_def)
      have eL: "endLength vo (take (i0 + 1) (it[i := v])) = L"
        unfolding tk using vL by (simp add: endLength_append L_def)
      have t': "tracked vo (take (i0 + 1) (it[i := v]))"
        unfolding tk using a(7) vL by (simp add: tracked_append L_def)
      have f2: "forest cs2" and l2: "length cs2 = length (clumps mm)"
        using wd by (simp_all add: welded_def)
      have v2: "validIds (mm\<lparr>clumps := cs2\<rparr>)" using a(2) wd by (rule welded_validIds)
      show ?thesis
        unfolding P_def v_def[symmetric] e1
        using f2 l2 v2 a(3,4,5,8,9) is' t' eL iE by simp
    qed
    have "\<exists>nk' it' m'. updateKeyMapLoop (cl_uint vo) (hVertexKeys f) cid nInt [0..<E] 0
                (replicate E 0) mk = Some (nk', it', m') \<and> P [] nk' it' m'"
    proof (rule updateKeyMapLoop_rule[where P = P])
      show "P [0..<E] 0 (replicate E 0) mk" by (rule init)
    next
      fix "is" nk it mm
      assume "P is nk it mm"
      then show "forest (clumps mm) \<and> validIds mm
                  \<and> (\<forall>i\<in>set is. cid ! (i + nInt) < length (clumps mm))" by (rule sound)
    next
      fix i "is" nk it mm
      assume "P (i # is) nk it mm" "keyMap mm (hVertexKeys f ! i) = None"
      then show "P is (nk + 1) (it[i := cl_uint (cl_uint vo + nk)])
                  (mm\<lparr>keyMap := (keyMap mm)(hVertexKeys f ! i \<mapsto>
                        \<lparr>vertexId = cl_uint (cl_uint vo + nk), clumpId = cid ! (i + nInt)\<rparr>)\<rparr>)"
        by (rule new)
    next
      fix i "is" nk it mm ed cs2
      assume "P (i # is) nk it mm" "keyMap mm (hVertexKeys f ! i) = Some ed"
        "welded (clumps mm) (cid ! (i + nInt)) (clumpId ed) cs2"
      then show "P is nk (it[i := vertexId ed]) (mm\<lparr>clumps := cs2\<rparr>)" by (rule old)
    qed
    then obtain nk it m' where
      r: "updateKeyMapLoop (cl_uint vo) (hVertexKeys f) cid nInt [0..<E] 0 (replicate E 0) mk
            = Some (nk, it, m')"
      and pf: "P [] nk it m'" by blast
    from pf have lE: "length it = E" by (simp add: P_def)
    then have tE: "take E it = it" by simp
    from pf have q: "forest (clumps m')" "validIds m'" "length (clumps m') = length cs'"
      "length it = E" "tracked vo it"
      "\<forall>k ed. keyMap m' k = Some ed \<longrightarrow> vertexId ed < endLength vo it"
      unfolding P_def by auto
    have uk: "updateKeyMap (hVertexKeys f) (prior + nInt) (hVertexKeys f) cid mk = Some (nk, it, m')"
      using r lcid w by (simp add: updateKeyMap_def size_t_sub_def E_def vo_def)
    define vs1 where "vs1 = meshVertices m @ map (\<lambda>i. (hVertices f ! i, cid ! i)) [0..<nInt]"
    define vs2 where "vs2 = storeExternal (hVertices f) cid nInt it [0..<E] vs1"
    define tris where "tris = rewriteTriangles prior nInt it (hTriangles f)"
    define m2 where "m2 = m\<lparr>clumps := clumps m', keyMap := keyMap m',
                              meshVertices := vs2, meshTriangles := meshTriangles m @ tris\<rparr>"
    have res: "StxxlMesh_add f m = Some (Inr m2)"
      using cl uk nt ne
      by (simp add: StxxlMesh_add_def numVertices_def n_def[symmetric] prior_def[symmetric]
          nInt_def[symmetric] mk_def[symmetric] Let_def m2_def vs1_def vs2_def tris_def)
    have l1: "length vs1 = vo" by (simp add: vs1_def vo_def prior_def)
    have cb: "\<forall>i\<in>set [0..<E]. cid ! (nInt + i) < length cs'" using bnd w by simp
    from storeExternal_spec[OF cb, of "hVertices f" it vs1] obtain app where
      ap: "vs2 = vs1 @ app" "length vs1 + length app = endLength (length vs1) (map ((!) it) [0..<E])"
          "\<forall>p\<in>set app. snd p < length cs'" by (auto simp: vs2_def)
    have mi: "map ((!) it) [0..<E] = it" using q(4) map_nth[of it] by simp
    have l2: "length vs2 = endLength vo it" using ap(1,2) l1 mi by simp
    have s1: "\<forall>vc\<in>set vs1. snd vc < length cs'"
    proof
      fix vc assume "vc \<in> set vs1"
      then consider "vc \<in> set (meshVertices m)" | i where "i < nInt" "vc = (hVertices f ! i, cid ! i)"
        by (auto simp: vs1_def)
      then show "snd vc < length cs'"
      proof cases
        case 1
        with sv grow show ?thesis by fastforce
      next
        case 2
        with bnd w show ?thesis by simp
      qed
    qed
    have s2: "\<forall>vc\<in>set vs2. snd vc < length (clumps m')"
      using s1 ap(1,3) q(3) by auto
    have ge: "vo \<le> length vs2" using l2 endLength_ge[of vo it] by simp
    have le: "length vs2 \<le> vo + E" using l2 endLength_le[of vo it] q(4) by simp
    have ri: "rewriteIndex (cl_uint prior) nInt it x < length vs2" if "x < n" for x
    proof (cases "x < nInt")
      case True
      have "cl_uint (cl_uint prior + x) \<le> prior + x" by (simp add: cl_uint_add cl_uint_le)
      also have "\<dots> < vo" using True by (simp add: vo_def)
      finally show ?thesis using True ge by (simp add: rewriteIndex_def)
    next
      case False
      then have "x - nInt < E" using that w by simp
      then have "it ! (x - nInt) \<in> set it" using q(4) by simp
      from tracked_below[OF q(5) this] show ?thesis using False l2 by (simp add: rewriteIndex_def)
    qed
    have t2: "trianglesBelow (length vs2) (meshTriangles m @ tris)"
    proof -
      have "trianglesBelow (length vs2) (meshTriangles m)"
        using tv ge by (fastforce simp: trianglesBelow_def vo_def)
      moreover have "trianglesBelow (length vs2) tris"
        using w(3) ri by (fastforce simp: trianglesBelow_def tris_def rewriteTriangles_def)
      ultimately show ?thesis by (auto simp: trianglesBelow_def)
    qed
    have "storeInv m2"
      unfolding storeInv_def using q(1,2,6) s2 t2 l2 by (simp add: m2_def validIds_def)
    moreover have "length (clumps m2) = length (clumps m) + localComponents f"
      using q(3) lcs by (simp add: m2_def)
    moreover have "length (meshVertices m) + numInternalVertices f \<le> length (meshVertices m2)"
      using ge by (simp add: m2_def vo_def prior_def nInt_def)
    moreover have "length (meshVertices m2) \<le> length (meshVertices m) + numVertices f"
      using le w by (simp add: m2_def vo_def prior_def numVertices_def n_def)
    moreover have "length (meshTriangles m2) = length (meshTriangles m) + length (hTriangles f)"
      by (simp add: m2_def tris_def rewriteTriangles_def)
    ultimately show ?thesis using res False by (simp add: over_def)
  qed
qed

lemma storeInv_initial: "storeInv StxxlMesh"
  by (simp add: storeInv_def StxxlMesh_def forest_def validIds_def trianglesBelow_def)

lemma StxxlMesh_feed:
  assumes "\<forall>f\<in>set fs. wellFormed f" and "storeInv m"
  shows "if sum_list (map localComponents fs) = 0
            \<or> length (clumps m) + sum_list (map localComponents fs) \<le> clump_id_max + 1
         then \<exists>m'. feed StxxlMesh_add fs m = Some (Inr m') \<and> storeInv m'
                \<and> length (meshVertices m) \<le> length (meshVertices m')
                \<and> length (meshVertices m') \<le> length (meshVertices m) + sum_list (map numVertices fs)
         else feed StxxlMesh_add fs m = Some (Inl (overflow_error ''Too many clumps''))"
  using assms
proof (induction fs arbitrary: m)
  case Nil
  then show ?case by simp
next
  case (Cons f fs)
  from Cons.prems(1) have wf: "wellFormed f" and wfs: "\<forall>f\<in>set fs. wellFormed f" by simp_all
  define L where "L = length (clumps m)"
  define S where "S = sum_list (map localComponents fs)"
  define R where "R = localComponents f"
  note sp = StxxlMesh_add_spec[OF wf Cons.prems(2), folded L_def R_def]
  have sm: "sum_list (map localComponents (f # fs)) = R + S" by (simp add: S_def R_def)
  show ?case
  proof (cases "R \<noteq> 0 \<and> clump_id_max + 1 < L + R")
    case True
    with sp have "StxxlMesh_add f m = Some (Inl (overflow_error ''Too many clumps''))" by simp
    then have "feed StxxlMesh_add (f # fs) m = Some (Inl (overflow_error ''Too many clumps''))"
      by simp
    moreover have "\<not> (R + S = 0 \<or> L + (R + S) \<le> clump_id_max + 1)" using True by arith
    ultimately show ?thesis unfolding sm L_def[symmetric] by simp
  next
    case False
    with sp obtain m2 where m2: "StxxlMesh_add f m = Some (Inr m2)" and i2: "storeInv m2"
      and l2: "length (clumps m2) = L + R"
      and v2: "length (meshVertices m) + numInternalVertices f \<le> length (meshVertices m2)"
              "length (meshVertices m2) \<le> length (meshVertices m) + numVertices f"
      by auto
    have fe: "feed StxxlMesh_add (f # fs) m = feed StxxlMesh_add fs m2" using m2 by simp
    have c1: "(R + S = 0 \<or> L + (R + S) \<le> clump_id_max + 1)
              \<longleftrightarrow> (S = 0 \<or> L + R + S \<le> clump_id_max + 1)"
      using False by arith
    note ih = Cons.IH[OF wfs i2, folded S_def, unfolded l2]
    show ?thesis
    proof (cases "S = 0 \<or> L + R + S \<le> clump_id_max + 1")
      case True
      with ih obtain m' where m': "feed StxxlMesh_add fs m2 = Some (Inr m')" "storeInv m'"
        "length (meshVertices m2) \<le> length (meshVertices m')"
        "length (meshVertices m') \<le> length (meshVertices m2) + sum_list (map numVertices fs)"
        by auto
      have "length (meshVertices m) \<le> length (meshVertices m')" using v2(1) m'(3) by simp
      moreover have "length (meshVertices m')
                       \<le> length (meshVertices m) + sum_list (map numVertices (f # fs))"
        using v2(2) m'(4) by simp
      ultimately show ?thesis unfolding sm L_def[symmetric] fe using True c1 m'(1,2) by simp
    next
      case False
      with ih have "feed StxxlMesh_add fs m2 = Some (Inl (overflow_error ''Too many clumps''))"
        by simp
      then show ?thesis unfolding sm L_def[symmetric] fe using False c1 by simp
    qed
  qed
qed

lemma writeVertices_spec:
  assumes "forest cs" and "\<forall>vc\<in>set vs. snd vc < length cs"
  shows "\<exists>R. writeVertices cs thr vs out remap nextV
             = Some (out @ map fst (filter (\<lambda>vc. thr \<le> unat (vertices (cs ! rep cs (snd vc)))) vs),
                     remap @ R)
           \<and> length R = length vs
           \<and> (nextV + length vs \<le> UINT_MAX \<longrightarrow>
                (\<forall>i<length vs. R ! i
                   = (if thr \<le> unat (vertices (cs ! rep cs (snd (vs ! i))))
                      then nextV + length (filter (\<lambda>vc. thr \<le> unat (vertices (cs ! rep cs (snd vc))))
                                             (take i vs))
                      else UINT_MAX)))"
  using assms(2)
proof (induction vs arbitrary: out remap nextV)
  case Nil
  then show ?case by simp
next
  case (Cons vc vs)
  let ?K = "\<lambda>vc. thr \<le> unat (vertices (cs ! rep cs (snd vc)))"
  obtain v c where vc: "vc = (v, c)" by (cases vc)
  from Cons.prems vc have c: "c < length cs" and rest: "\<forall>vc\<in>set vs. snd vc < length cs"
    by simp_all
  have fr: "findRootConst cs c = Some (rep cs c)" using assms(1) c by (rule findRootConst_forest)
  show ?case
  proof (cases "?K vc")
    case True
    define nx where "nx = cl_uint (nextV + 1)"
    from Cons.IH[OF rest, of "out @ [v]" "remap @ [nextV]" nx] obtain R where
      r: "writeVertices cs thr vs (out @ [v]) (remap @ [nextV]) nx
            = Some ((out @ [v]) @ map fst (filter ?K vs), (remap @ [nextV]) @ R)"
         "length R = length vs"
         "nx + length vs \<le> UINT_MAX \<longrightarrow>
            (\<forall>i<length vs. R ! i = (if ?K (vs ! i)
                 then nx + length (filter ?K (take i vs)) else UINT_MAX))"
      by blast
    have w: "writeVertices cs thr (vc # vs) out remap nextV
               = Some (out @ map fst (filter ?K (vc # vs)), remap @ (nextV # R))"
      using r(1) True fr vc by (simp add: nx_def)
    have b: "\<forall>i<length (vc # vs). (nextV # R) ! i
               = (if ?K ((vc # vs) ! i)
                  then nextV + length (filter ?K (take i (vc # vs))) else UINT_MAX)"
      if bd: "nextV + length (vc # vs) \<le> UINT_MAX"
    proof (intro allI impI)
      fix i assume i: "i < length (vc # vs)"
      have "nextV + 1 < 4294967296" using bd by (simp add: UINT_MAX_def)
      then have nx1: "nx = nextV + 1" by (simp add: nx_def cl_uint_id)
      then have "nx + length vs \<le> UINT_MAX" using bd by simp
      with r(3) have ih: "\<forall>j<length vs. R ! j = (if ?K (vs ! j)
                 then nx + length (filter ?K (take j vs)) else UINT_MAX)" by simp
      show "(nextV # R) ! i = (if ?K ((vc # vs) ! i)
                  then nextV + length (filter ?K (take i (vc # vs))) else UINT_MAX)"
      proof (cases i)
        case 0
        with True show ?thesis by simp
      next
        case (Suc j)
        with i have "j < length vs" by simp
        with ih have "R ! j = (if ?K (vs ! j)
                 then nx + length (filter ?K (take j vs)) else UINT_MAX)" by simp
        with Suc True nx1 show ?thesis by simp
      qed
    qed
    from w r(2) b show ?thesis by (intro exI[of _ "nextV # R"]) simp
  next
    case False
    from Cons.IH[OF rest, of out "remap @ [UINT_MAX]" nextV] obtain R where
      r: "writeVertices cs thr vs out (remap @ [UINT_MAX]) nextV
            = Some (out @ map fst (filter ?K vs), (remap @ [UINT_MAX]) @ R)"
         "length R = length vs"
         "nextV + length vs \<le> UINT_MAX \<longrightarrow>
            (\<forall>i<length vs. R ! i = (if ?K (vs ! i)
                 then nextV + length (filter ?K (take i vs)) else UINT_MAX))"
      by blast
    have w: "writeVertices cs thr (vc # vs) out remap nextV
               = Some (out @ map fst (filter ?K (vc # vs)), remap @ (UINT_MAX # R))"
      using r(1) False fr vc by simp
    have b: "\<forall>i<length (vc # vs). (UINT_MAX # R) ! i
               = (if ?K ((vc # vs) ! i)
                  then nextV + length (filter ?K (take i (vc # vs))) else UINT_MAX)"
      if bd: "nextV + length (vc # vs) \<le> UINT_MAX"
    proof (intro allI impI)
      fix i assume i: "i < length (vc # vs)"
      have "nextV + length vs \<le> UINT_MAX" using bd by simp
      with r(3) have ih: "\<forall>j<length vs. R ! j = (if ?K (vs ! j)
                 then nextV + length (filter ?K (take j vs)) else UINT_MAX)" by simp
      show "(UINT_MAX # R) ! i = (if ?K ((vc # vs) ! i)
                  then nextV + length (filter ?K (take i (vc # vs))) else UINT_MAX)"
      proof (cases i)
        case 0
        with False show ?thesis by simp
      next
        case (Suc j)
        with i have "j < length vs" by simp
        with ih have "R ! j = (if ?K (vs ! j)
                 then nextV + length (filter ?K (take j vs)) else UINT_MAX)" by simp
        with Suc False show ?thesis by simp
      qed
    qed
    from w r(2) b show ?thesis by (intro exI[of _ "UINT_MAX # R"]) simp
  qed
qed

lemma writeTriangles_spec:
  assumes "trianglesBelow (length remap) tris"
  shows "writeTriangles remap tris out
           = Some (out @ map (\<lambda>t. (remap ! fst t, remap ! fst (snd t), remap ! snd (snd t)))
                           (filter (\<lambda>t. remap ! fst t \<noteq> UINT_MAX) tris))"
  using assms
proof (induction tris arbitrary: out)
  case Nil
  then show ?case by simp
next
  case (Cons t tris)
  obtain a b c where t: "t = (a, b, c)" by (cases t)
  from Cons.prems t have r: "a < length remap" "b < length remap" "c < length remap"
    and rest: "trianglesBelow (length remap) tris" by (auto simp: trianglesBelow_def)
  from Cons.IH[OF rest] r t show ?case by simp
qed

section \<open>What \<^verbatim>\<open>StxxlMesh::write\<close> emits\<close>

lemma retained_iff:
  "r \<in> set (retained m t) \<longleftrightarrow>
     r < length (clumps m) \<and> isRoot (clumps m ! r)
     \<and> thresholdVertices (length (meshVertices m)) t \<le> unat (vertices (clumps m ! r))"
  by (auto simp: retained_def clumpKept_def)

lemma inRetained_iff:
  assumes "forest (clumps m)" and "c < length (clumps m)"
  shows "(\<exists>r\<in>set (retained m t). findRootConst (clumps m) c = Some r)
         \<longleftrightarrow> thresholdVertices (length (meshVertices m)) t
               \<le> unat (vertices (clumps m ! rep (clumps m) c))"
proof -
  have fr: "findRootConst (clumps m) c = Some (rep (clumps m) c)"
    using assms by (rule findRootConst_forest)
  have rb: "rep (clumps m) c < length (clumps m)" "isRoot (clumps m ! rep (clumps m) c)"
    using rep_bounds[OF assms] by simp_all
  show ?thesis using fr rb by (auto simp: retained_iff)
qed

lemma subseq_filter_imp:
  assumes "\<forall>x\<in>set xs. P x \<longrightarrow> Q x"
  shows "subseq (filter P xs) (filter Q xs)"
proof -
  have "filter P (filter Q xs) = filter P xs" using assms by (auto intro: filter_cong)
  moreover have "subseq (filter P (filter Q xs)) (filter Q xs)" by (rule subseq_filter_left)
  ultimately show ?thesis by simp
qed

lemma StxxlMesh_write_spec:
  assumes inv: "storeInv m"
  shows "\<exists>R. StxxlMesh_write m t
            = Some \<lparr>declaredVertices
                      = sum_list (map vertices
                          (filter (clumpKept (thresholdVertices (length (meshVertices m)) t))
                             (clumps m))),
                    declaredTriangles
                      = sum_list (map triangles
                          (filter (clumpKept (thresholdVertices (length (meshVertices m)) t))
                             (clumps m))),
                    fileVertices = writtenVertices m t,
                    fileTriangles
                      = map (\<lambda>t. (R ! fst t, R ! fst (snd t), R ! snd (snd t)))
                          (filter (\<lambda>t. R ! fst t \<noteq> UINT_MAX) (meshTriangles m))\<rparr>
          \<and> length R = length (meshVertices m)
          \<and> (length (meshVertices m) \<le> UINT_MAX \<longrightarrow>
               (\<forall>i<length (meshVertices m). R ! i
                  = (if \<exists>r\<in>set (retained m t).
                          findRootConst (clumps m) (snd (meshVertices m ! i)) = Some r
                     then length (filter (\<lambda>vc. \<exists>r\<in>set (retained m t).
                                      findRootConst (clumps m) (snd vc) = Some r)
                                   (take i (meshVertices m)))
                     else UINT_MAX)))"
proof -
  define cs where "cs = clumps m"
  define mv where "mv = meshVertices m"
  define thr where "thr = thresholdVertices (length mv) t"
  define K where "K = (\<lambda>vc :: 'a \<times> nat. thr \<le> unat (vertices (cs ! rep cs (snd vc))))"
  define K' where "K' = (\<lambda>vc :: 'a \<times> nat. \<exists>r\<in>set (retained m t). findRootConst cs (snd vc) = Some r)"
  from inv have f: "forest cs" and sv: "\<forall>vc\<in>set mv. snd vc < length cs"
    and tb: "trianglesBelow (length mv) (meshTriangles m)"
    by (simp_all add: storeInv_def cs_def mv_def)
  have KK: "K' vc = K vc" if "vc \<in> set mv" for vc
  proof -
    from that sv have "snd vc < length (clumps m)" by (simp add: cs_def)
    from inRetained_iff[OF f[unfolded cs_def] this, of t] show ?thesis
      by (simp add: K_def K'_def cs_def thr_def mv_def)
  qed
  have fK: "filter K' xs = filter K xs" if "set xs \<subseteq> set mv" for xs
  proof (rule filter_cong)
    show "xs = xs" ..
  next
    fix x assume "x \<in> set xs"
    with that have "x \<in> set mv" by blast
    then show "K' x = K x" by (rule KK)
  qed
  from writeVertices_spec[OF f sv, of thr "[]" "[]" 0] obtain R where
    r: "writeVertices cs thr mv [] [] 0 = Some (map fst (filter K mv), R)"
       "length R = length mv"
       "length mv \<le> UINT_MAX \<longrightarrow>
          (\<forall>i<length mv. R ! i = (if K (mv ! i) then length (filter K (take i mv)) else UINT_MAX))"
    by (auto simp: K_def)
  have tb': "trianglesBelow (length R) (meshTriangles m)" using tb r(2) by simp
  note wt = writeTriangles_spec[OF tb', of "[]"]
  have w: "StxxlMesh_write m t
            = Some \<lparr>declaredVertices = sum_list (map vertices (filter (clumpKept thr) cs)),
                    declaredTriangles = sum_list (map triangles (filter (clumpKept thr) cs)),
                    fileVertices = map fst (filter K mv),
                    fileTriangles
                      = map (\<lambda>t. (R ! fst t, R ! fst (snd t), R ! snd (snd t)))
                          (filter (\<lambda>t. R ! fst t \<noteq> UINT_MAX) (meshTriangles m))\<rparr>"
    using r(1) wt
    by (simp add: StxxlMesh_write_def Let_def cs_def[symmetric] mv_def[symmetric]
        thr_def[symmetric])
  have wv: "writtenVertices m t = map fst (filter K mv)"
    using fK[of mv] by (simp add: writtenVertices_def K'_def cs_def mv_def)
  have p3: "\<forall>i<length mv. R ! i
                  = (if K' (mv ! i) then length (filter K' (take i mv)) else UINT_MAX)"
    if "length mv \<le> UINT_MAX"
  proof (intro allI impI)
    fix i assume i: "i < length mv"
    have "set (take i mv) \<subseteq> set mv" by (rule set_take_subset)
    then have "filter K' (take i mv) = filter K (take i mv)" by (rule fK)
    moreover have "K' (mv ! i) = K (mv ! i)" using i by (intro KK) simp
    ultimately show "R ! i = (if K' (mv ! i) then length (filter K' (take i mv)) else UINT_MAX)"
      using r(3) that i by simp
  qed
  show ?thesis
    using w wv r(2) p3
    by (intro exI[of _ R]) (simp add: thr_def mv_def cs_def K'_def)
qed
section \<open>Running the model on concrete inputs\<close>

text \<open>The equations that let the simplifier execute the model.\<close>

lemma replicate_numeral_unfold: "replicate (numeral k) x = x # replicate (pred_numeral k) x"
  by (simp add: numeral_eq_Suc)

lemmas model_simps =
  computeLocalComponents_def updateKeyMap_def updateKeyMapStep_def merge_def findRoot_def
  findRootConst_def walk.simps compress_def newNode_def isRoot_def nodeMerge_def clumpMerge_def
  Clump_def clump_id_max_def numVertices_def numExternalVertices_def rewriteTriangles_def
  rewriteIndex_def cl_uint_def size_t_sub_def resizeThrows_def Let_def upt_conv_Cons
  replicate_numeral_unfold

lemmas write_simps =
  StxxlMesh_write_def clumpKept_def UINT_MAX_def retained_def writtenVertices_def
section \<open>Overflow of the clump table\<close>



section \<open>Pruning is monotone in the threshold\<close>

text \<open>
  C7. For a mesh ingested from well-formed fragments that stores fewer than \<open>2^32\<close> vertices,
  and prune thresholds \<open>0 \<le> t1 \<le> t2 \<le> 1\<close>: \<^verbatim>\<open>StxxlMesh::write\<close> succeeds for each threshold, the
  components retained under \<open>t2\<close> (the roots whose vertex counter is at least the threshold
  computed by \<^verbatim>\<open>write\<close>) are among those retained under \<open>t1\<close>, the vertices written are those of
  the retained components, so that the vertices written under \<open>t2\<close> are a subsequence of those
  written under \<open>t1\<close>, and with threshold \<open>0\<close> every root is retained and every stored vertex and
  triangle is written unchanged.
\<close>

theorem prune_monotone:
  assumes "\<forall>f\<in>set fs. wellFormed f"
    and "feed StxxlMesh_add fs StxxlMesh = Some (Inr m)"
    and "length (meshVertices m) < 4294967296"
    and "0 \<le> t1" and "t1 \<le> t2" and "t2 \<le> 1"
  shows "\<exists>f0 f1 f2.
           StxxlMesh_write m 0 = Some f0 \<and> StxxlMesh_write m t1 = Some f1
           \<and> StxxlMesh_write m t2 = Some f2
           \<and> set (retained m t2) \<subseteq> set (retained m t1)
           \<and> set (retained m 0) = {r. r < length (clumps m) \<and> isRoot (clumps m ! r)}
           \<and> fileVertices f1 = writtenVertices m t1 \<and> fileVertices f2 = writtenVertices m t2
           \<and> subseq (fileVertices f2) (fileVertices f1)
           \<and> fileVertices f0 = map fst (meshVertices m) \<and> fileTriangles f0 = meshTriangles m"
proof -
  define n where "n = length (meshVertices m)"
  have inv: "storeInv m"
    using StxxlMesh_feed[OF assms(1) storeInv_initial] assms(2) by (auto split: if_splits)
  then have f: "forest (clumps m)" and sv: "\<forall>vc\<in>set (meshVertices m). snd vc < length (clumps m)"
    and tb: "trianglesBelow n (meshTriangles m)"
    by (simp_all add: storeInv_def n_def)
  have nb: "n < 4294967296" using assms(3) by (simp add: n_def)
  have th: "thresholdVertices n t1 \<le> thresholdVertices n t2"
    using nb assms(4,5,6) by (rule thresholdVertices_mono(1))
  have t0: "thresholdVertices n 0 = 0" by (rule thresholdVertices_zero)
  have sub: "set (retained m t2) \<subseteq> set (retained m t1)"
    using th by (auto simp: retained_iff n_def)
  have all: "set (retained m 0) = {r. r < length (clumps m) \<and> isRoot (clumps m ! r)}"
    using t0 by (auto simp: retained_iff n_def)
  from StxxlMesh_write_spec[OF inv, of 0] obtain R0 where
    w0: "StxxlMesh_write m 0
            = Some \<lparr>declaredVertices
                      = sum_list (map vertices
                          (filter (clumpKept (thresholdVertices (length (meshVertices m)) 0))
                             (clumps m))),
                    declaredTriangles
                      = sum_list (map triangles
                          (filter (clumpKept (thresholdVertices (length (meshVertices m)) 0))
                             (clumps m))),
                    fileVertices = writtenVertices m 0,
                    fileTriangles
                      = map (\<lambda>t. (R0 ! fst t, R0 ! fst (snd t), R0 ! snd (snd t)))
                          (filter (\<lambda>t. R0 ! fst t \<noteq> UINT_MAX) (meshTriangles m))\<rparr>"
    and r0: "length (meshVertices m) \<le> UINT_MAX \<longrightarrow>
               (\<forall>i<length (meshVertices m). R0 ! i
                  = (if \<exists>r\<in>set (retained m 0).
                          findRootConst (clumps m) (snd (meshVertices m ! i)) = Some r
                     then length (filter (\<lambda>vc. \<exists>r\<in>set (retained m 0).
                                      findRootConst (clumps m) (snd vc) = Some r)
                                   (take i (meshVertices m)))
                     else UINT_MAX))"
    by blast
  from StxxlMesh_write_spec[OF inv, of t1] obtain f1 where
    w1: "StxxlMesh_write m t1 = Some f1" "fileVertices f1 = writtenVertices m t1" by fastforce
  from StxxlMesh_write_spec[OF inv, of t2] obtain f2 where
    w2: "StxxlMesh_write m t2 = Some f2" "fileVertices f2 = writtenVertices m t2" by fastforce
  have in0: "\<exists>r\<in>set (retained m 0). findRootConst (clumps m) (snd vc) = Some r"
    if "vc \<in> set (meshVertices m)" for vc
  proof -
    from that sv have c: "snd vc < length (clumps m)" by simp
    show ?thesis using inRetained_iff[OF f c, of 0] t0 by (simp add: n_def)
  qed
  have fall: "filter (\<lambda>vc. \<exists>r\<in>set (retained m 0). findRootConst (clumps m) (snd vc) = Some r) xs
                = xs" if "set xs \<subseteq> set (meshVertices m)" for xs
  proof (rule filter_True, intro ballI)
    fix x assume "x \<in> set xs"
    with that have "x \<in> set (meshVertices m)" by blast
    then show "\<exists>r\<in>set (retained m 0). findRootConst (clumps m) (snd x) = Some r" by (rule in0)
  qed
  have v0: "writtenVertices m 0 = map fst (meshVertices m)"
    using fall[of "meshVertices m"] by (simp add: writtenVertices_def)
  have le: "length (meshVertices m) \<le> UINT_MAX" using assms(3) by (simp add: UINT_MAX_def)
  have id: "R0 ! i = i" if "i < n" for i
  proof -
    have i: "i < length (meshVertices m)" using that by (simp add: n_def)
    have "set (take i (meshVertices m)) \<subseteq> set (meshVertices m)" by (rule set_take_subset)
    from fall[OF this] in0[of "meshVertices m ! i"] r0 le i show ?thesis by simp
  qed
  have tri: "map (\<lambda>t. (R0 ! fst t, R0 ! fst (snd t), R0 ! snd (snd t)))
                (filter (\<lambda>t. R0 ! fst t \<noteq> UINT_MAX) (meshTriangles m)) = meshTriangles m"
  proof -
    have b: "fst t < n \<and> fst (snd t) < n \<and> snd (snd t) < n" if "t \<in> set (meshTriangles m)" for t
      using tb that by (auto simp: trianglesBelow_def)
    have "R0 ! fst t \<noteq> UINT_MAX" if "t \<in> set (meshTriangles m)" for t
      using b[OF that] id[of "fst t"] le by (simp add: n_def)
    then have "filter (\<lambda>t. R0 ! fst t \<noteq> UINT_MAX) (meshTriangles m) = meshTriangles m"
      by (auto intro: filter_True)
    moreover have "map (\<lambda>t. (R0 ! fst t, R0 ! fst (snd t), R0 ! snd (snd t))) (meshTriangles m)
                     = meshTriangles m"
      using b id by (intro map_idI) auto
    ultimately show ?thesis by simp
  qed
  have ss: "subseq (writtenVertices m t2) (writtenVertices m t1)"
    unfolding writtenVertices_def
    by (intro subseq_map subseq_filter_imp) (use sub in auto)
  show ?thesis
    using w0 w1 w2 sub all ss v0 tri by simp
qed

theorem prune_monotone_witness:
  "wellFormed \<lparr>hVertices = [10, 11, 12, 13, 14, 15::nat], hVertexKeys = [],
        hTriangles = [(0, 1, 2), (0, 2, 3), (0, 3, 4), (0, 4, 5)], numInternalVertices = 6\<rparr>
   \<and> wellFormed \<lparr>hVertices = [16, 17, 18, 19::nat], hVertexKeys = [],
        hTriangles = [(0, 1, 2), (1, 2, 3)], numInternalVertices = 4\<rparr>
   \<and> feed StxxlMesh_add
         [\<lparr>hVertices = [10, 11, 12, 13, 14, 15::nat], hVertexKeys = [],
        hTriangles = [(0, 1, 2), (0, 2, 3), (0, 3, 4), (0, 4, 5)], numInternalVertices = 6\<rparr>,
          \<lparr>hVertices = [16, 17, 18, 19::nat], hVertexKeys = [],
        hTriangles = [(0, 1, 2), (1, 2, 3)], numInternalVertices = 4\<rparr>] StxxlMesh
       = Some (Inr \<lparr>clumps = [\<lparr>parent = - 1, nsize = 1, vertices = 6, triangles = 4\<rparr>,
                  \<lparr>parent = - 1, nsize = 1, vertices = 4, triangles = 2\<rparr>],
        keyMap = Map.empty,
        meshVertices = [(10::nat, 0), (11, 0), (12, 0), (13, 0), (14, 0), (15, 0),
                        (16, 1), (17, 1), (18, 1), (19, 1)],
        meshTriangles = [(0, 1, 2), (0, 2, 3), (0, 3, 4), (0, 4, 5), (6, 7, 8), (7, 8, 9)]\<rparr>)
   \<and> (0::real) \<le> 1 / 2 \<and> (1 / 2 :: real) \<le> 3 / 4 \<and> (3 / 4 :: real) \<le> 1
   \<and> StxxlMesh_write \<lparr>clumps = [\<lparr>parent = - 1, nsize = 1, vertices = 6, triangles = 4\<rparr>,
                  \<lparr>parent = - 1, nsize = 1, vertices = 4, triangles = 2\<rparr>],
        keyMap = Map.empty,
        meshVertices = [(10::nat, 0), (11, 0), (12, 0), (13, 0), (14, 0), (15, 0),
                        (16, 1), (17, 1), (18, 1), (19, 1)],
        meshTriangles = [(0, 1, 2), (0, 2, 3), (0, 3, 4), (0, 4, 5), (6, 7, 8), (7, 8, 9)]\<rparr> 0
       = Some \<lparr>declaredVertices = 10, declaredTriangles = 6,
              fileVertices = [10::nat, 11, 12, 13, 14, 15, 16, 17, 18, 19],
              fileTriangles = [(0, 1, 2), (0, 2, 3), (0, 3, 4), (0, 4, 5), (6, 7, 8), (7, 8, 9)]\<rparr>
   \<and> StxxlMesh_write \<lparr>clumps = [\<lparr>parent = - 1, nsize = 1, vertices = 6, triangles = 4\<rparr>,
                  \<lparr>parent = - 1, nsize = 1, vertices = 4, triangles = 2\<rparr>],
        keyMap = Map.empty,
        meshVertices = [(10::nat, 0), (11, 0), (12, 0), (13, 0), (14, 0), (15, 0),
                        (16, 1), (17, 1), (18, 1), (19, 1)],
        meshTriangles = [(0, 1, 2), (0, 2, 3), (0, 3, 4), (0, 4, 5), (6, 7, 8), (7, 8, 9)]\<rparr> (1 / 2)
       = Some \<lparr>declaredVertices = 6, declaredTriangles = 4,
              fileVertices = [10::nat, 11, 12, 13, 14, 15],
              fileTriangles = [(0, 1, 2), (0, 2, 3), (0, 3, 4), (0, 4, 5)]\<rparr>
   \<and> StxxlMesh_write \<lparr>clumps = [\<lparr>parent = - 1, nsize = 1, vertices = 6, triangles = 4\<rparr>,
                  \<lparr>parent = - 1, nsize = 1, vertices = 4, triangles = 2\<rparr>],
        keyMap = Map.empty,
        meshVertices = [(10::nat, 0), (11, 0), (12, 0), (13, 0), (14, 0), (15, 0),
                        (16, 1), (17, 1), (18, 1), (19, 1)],
        meshTriangles = [(0, 1, 2), (0, 2, 3), (0, 3, 4), (0, 4, 5), (6, 7, 8), (7, 8, 9)]\<rparr> (3 / 4)
       = Some \<lparr>declaredVertices = 0, declaredTriangles = 0, fileVertices = ([]::nat list), fileTriangles = []\<rparr>
   \<and> retained \<lparr>clumps = [\<lparr>parent = - 1, nsize = 1, vertices = 6, triangles = 4\<rparr>,
                  \<lparr>parent = - 1, nsize = 1, vertices = 4, triangles = 2\<rparr>],
        keyMap = Map.empty,
        meshVertices = [(10::nat, 0), (11, 0), (12, 0), (13, 0), (14, 0), (15, 0),
                        (16, 1), (17, 1), (18, 1), (19, 1)],
        meshTriangles = [(0, 1, 2), (0, 2, 3), (0, 3, 4), (0, 4, 5), (6, 7, 8), (7, 8, 9)]\<rparr> 0 = [0, 1]
   \<and> retained \<lparr>clumps = [\<lparr>parent = - 1, nsize = 1, vertices = 6, triangles = 4\<rparr>,
                  \<lparr>parent = - 1, nsize = 1, vertices = 4, triangles = 2\<rparr>],
        keyMap = Map.empty,
        meshVertices = [(10::nat, 0), (11, 0), (12, 0), (13, 0), (14, 0), (15, 0),
                        (16, 1), (17, 1), (18, 1), (19, 1)],
        meshTriangles = [(0, 1, 2), (0, 2, 3), (0, 3, 4), (0, 4, 5), (6, 7, 8), (7, 8, 9)]\<rparr> (1 / 2) = [0]
   \<and> retained \<lparr>clumps = [\<lparr>parent = - 1, nsize = 1, vertices = 6, triangles = 4\<rparr>,
                  \<lparr>parent = - 1, nsize = 1, vertices = 4, triangles = 2\<rparr>],
        keyMap = Map.empty,
        meshVertices = [(10::nat, 0), (11, 0), (12, 0), (13, 0), (14, 0), (15, 0),
                        (16, 1), (17, 1), (18, 1), (19, 1)],
        meshTriangles = [(0, 1, 2), (0, 2, 3), (0, 3, 4), (0, 4, 5), (6, 7, 8), (7, 8, 9)]\<rparr> (3 / 4) = []"
proof -
  define fA :: "nat fragment" where "fA = \<lparr>hVertices = [10, 11, 12, 13, 14, 15::nat], hVertexKeys = [],
        hTriangles = [(0, 1, 2), (0, 2, 3), (0, 3, 4), (0, 4, 5)], numInternalVertices = 6\<rparr>"
  define fB :: "nat fragment" where "fB = \<lparr>hVertices = [16, 17, 18, 19::nat], hVertexKeys = [],
        hTriangles = [(0, 1, 2), (1, 2, 3)], numInternalVertices = 4\<rparr>"
  define M :: "nat stxxl_mesh" where "M = \<lparr>clumps = [\<lparr>parent = - 1, nsize = 1, vertices = 6, triangles = 4\<rparr>,
                  \<lparr>parent = - 1, nsize = 1, vertices = 4, triangles = 2\<rparr>],
        keyMap = Map.empty,
        meshVertices = [(10::nat, 0), (11, 0), (12, 0), (13, 0), (14, 0), (15, 0),
                        (16, 1), (17, 1), (18, 1), (19, 1)],
        meshTriangles = [(0, 1, 2), (0, 2, 3), (0, 3, 4), (0, 4, 5), (6, 7, 8), (7, 8, 9)]\<rparr>"
  have wf: "wellFormed fA" "wellFormed fB"
    by (simp_all add: fA_def fB_def wellFormed_def trianglesBelow_def)
  have ing: "feed StxxlMesh_add [fA, fB] StxxlMesh = Some (Inr M)"
    by (simp add: fA_def fB_def M_def model_simps StxxlMesh_add_def StxxlMesh_def)
  have len: "length (meshVertices M) = 10" by (simp add: M_def)
  have rn: "roundDouble (real 10) = 10" using roundDouble_nat[of 10] by simp
  have r5: "roundDouble 5 = 5" using roundDouble_nat[of 5] by simp
  have r75: "roundDouble (15 / 2) = 15 / 2"
    by (subst roundDouble_eval[of 2]) (simp_all add: pow2_def roundEven_def)
  have th0: "thresholdVertices 10 0 = 0" by (rule thresholdVertices_zero)
  have th1: "thresholdVertices 10 (1 / 2) = 5"
  proof -
    have "thresholdVertices 10 (1 / 2) = cl_uint_of_double (roundDouble (10 * (1 / 2)))"
      unfolding thresholdVertices_def rn ..
    also have "\<dots> = 5" by (simp add: r5 cl_uint_of_double_def)
    finally show ?thesis .
  qed
  have th2: "thresholdVertices 10 (3 / 4) = 7"
  proof -
    have "thresholdVertices 10 (3 / 4) = cl_uint_of_double (roundDouble (10 * (3 / 4)))"
      unfolding thresholdVertices_def rn ..
    also have "\<dots> = 7" by (simp add: r75 cl_uint_of_double_def)
    finally show ?thesis .
  qed
  have w0: "StxxlMesh_write M 0 = Some \<lparr>declaredVertices = 10, declaredTriangles = 6,
              fileVertices = [10::nat, 11, 12, 13, 14, 15, 16, 17, 18, 19],
              fileTriangles = [(0, 1, 2), (0, 2, 3), (0, 3, 4), (0, 4, 5), (6, 7, 8), (7, 8, 9)]\<rparr>"
    unfolding StxxlMesh_write_def len th0 by (simp add: M_def write_simps model_simps)
  have w1: "StxxlMesh_write M (1 / 2) = Some \<lparr>declaredVertices = 6, declaredTriangles = 4,
              fileVertices = [10::nat, 11, 12, 13, 14, 15],
              fileTriangles = [(0, 1, 2), (0, 2, 3), (0, 3, 4), (0, 4, 5)]\<rparr>"
    unfolding StxxlMesh_write_def len th1 by (simp add: M_def write_simps model_simps)
  have w2: "StxxlMesh_write M (3 / 4) = Some \<lparr>declaredVertices = 0, declaredTriangles = 0, fileVertices = ([]::nat list), fileTriangles = []\<rparr>"
    unfolding StxxlMesh_write_def len th2 by (simp add: M_def write_simps model_simps)
  have re: "retained M 0 = [0, 1]" "retained M (1 / 2) = [0]" "retained M (3 / 4) = []"
    unfolding retained_def len th0 th1 th2 by (simp_all add: M_def write_simps model_simps)
  from prune_monotone[of "[fA, fB]" M "1 / 2" "3 / 4"] wf ing len
  have "set (retained M (3 / 4)) \<subseteq> set (retained M (1 / 2))" by auto
  with wf ing w0 w1 w2 re show ?thesis
    unfolding fA_def fB_def M_def by simp
qed

text \<open>
  The claim as stated fails in two ways. The threshold is the product taken in double precision
  and then truncated, not the floor of the exact product: for 10 stored vertices and the
  \<^verbatim>\<open>double\<close> nearest to \<open>0.7\<close> the exact product has floor 6, the rounded product is 7, and a
  component of 6 vertices is dropped. And the order is lost outside \<open>[0, 1]\<close>: the threshold
  \<open>-0.5\<close> is below \<open>0\<close>, yet it retains nothing where \<open>0\<close> retains everything.
\<close>

theorem prune_threshold_counterexample:
  "feed StxxlMesh_add
     [\<lparr>hVertices = [10, 11, 12, 13, 14, 15::nat], hVertexKeys = [],
        hTriangles = [(0, 1, 2), (0, 2, 3), (0, 3, 4), (0, 4, 5)], numInternalVertices = 6\<rparr>,
      \<lparr>hVertices = [16, 17, 18, 19::nat], hVertexKeys = [],
        hTriangles = [(0, 1, 2), (1, 2, 3)], numInternalVertices = 4\<rparr>] StxxlMesh
     = Some (Inr \<lparr>clumps = [\<lparr>parent = - 1, nsize = 1, vertices = 6, triangles = 4\<rparr>,
                  \<lparr>parent = - 1, nsize = 1, vertices = 4, triangles = 2\<rparr>],
        keyMap = Map.empty,
        meshVertices = [(10::nat, 0), (11, 0), (12, 0), (13, 0), (14, 0), (15, 0),
                        (16, 1), (17, 1), (18, 1), (19, 1)],
        meshTriangles = [(0, 1, 2), (0, 2, 3), (0, 3, 4), (0, 4, 5), (6, 7, 8), (7, 8, 9)]\<rparr>)
   \<and> roundDouble (3152519739159347 / 4503599627370496) = 3152519739159347 / 4503599627370496
   \<and> \<lfloor>real 10 * (3152519739159347 / 4503599627370496)\<rfloor> = 6
   \<and> thresholdVertices 10 (3152519739159347 / 4503599627370496) = 7
   \<and> StxxlMesh_write \<lparr>clumps = [\<lparr>parent = - 1, nsize = 1, vertices = 6, triangles = 4\<rparr>,
                  \<lparr>parent = - 1, nsize = 1, vertices = 4, triangles = 2\<rparr>],
        keyMap = Map.empty,
        meshVertices = [(10::nat, 0), (11, 0), (12, 0), (13, 0), (14, 0), (15, 0),
                        (16, 1), (17, 1), (18, 1), (19, 1)],
        meshTriangles = [(0, 1, 2), (0, 2, 3), (0, 3, 4), (0, 4, 5), (6, 7, 8), (7, 8, 9)]\<rparr> (3152519739159347 / 4503599627370496)
       = Some \<lparr>declaredVertices = 0, declaredTriangles = 0, fileVertices = ([]::nat list), fileTriangles = []\<rparr>
   \<and> thresholdVertices 10 (- 1 / 2) = 4294967291
   \<and> StxxlMesh_write \<lparr>clumps = [\<lparr>parent = - 1, nsize = 1, vertices = 6, triangles = 4\<rparr>,
                  \<lparr>parent = - 1, nsize = 1, vertices = 4, triangles = 2\<rparr>],
        keyMap = Map.empty,
        meshVertices = [(10::nat, 0), (11, 0), (12, 0), (13, 0), (14, 0), (15, 0),
                        (16, 1), (17, 1), (18, 1), (19, 1)],
        meshTriangles = [(0, 1, 2), (0, 2, 3), (0, 3, 4), (0, 4, 5), (6, 7, 8), (7, 8, 9)]\<rparr> (- 1 / 2)
       = Some \<lparr>declaredVertices = 0, declaredTriangles = 0, fileVertices = ([]::nat list), fileTriangles = []\<rparr>
   \<and> StxxlMesh_write \<lparr>clumps = [\<lparr>parent = - 1, nsize = 1, vertices = 6, triangles = 4\<rparr>,
                  \<lparr>parent = - 1, nsize = 1, vertices = 4, triangles = 2\<rparr>],
        keyMap = Map.empty,
        meshVertices = [(10::nat, 0), (11, 0), (12, 0), (13, 0), (14, 0), (15, 0),
                        (16, 1), (17, 1), (18, 1), (19, 1)],
        meshTriangles = [(0, 1, 2), (0, 2, 3), (0, 3, 4), (0, 4, 5), (6, 7, 8), (7, 8, 9)]\<rparr> 0
       = Some \<lparr>declaredVertices = 10, declaredTriangles = 6,
              fileVertices = [10::nat, 11, 12, 13, 14, 15, 16, 17, 18, 19],
              fileTriangles = [(0, 1, 2), (0, 2, 3), (0, 3, 4), (0, 4, 5), (6, 7, 8), (7, 8, 9)]\<rparr>"
proof -
  define M :: "nat stxxl_mesh" where "M = \<lparr>clumps = [\<lparr>parent = - 1, nsize = 1, vertices = 6, triangles = 4\<rparr>,
                  \<lparr>parent = - 1, nsize = 1, vertices = 4, triangles = 2\<rparr>],
        keyMap = Map.empty,
        meshVertices = [(10::nat, 0), (11, 0), (12, 0), (13, 0), (14, 0), (15, 0),
                        (16, 1), (17, 1), (18, 1), (19, 1)],
        meshTriangles = [(0, 1, 2), (0, 2, 3), (0, 3, 4), (0, 4, 5), (6, 7, 8), (7, 8, 9)]\<rparr>"
  have ing: "feed StxxlMesh_add
     [\<lparr>hVertices = [10, 11, 12, 13, 14, 15::nat], hVertexKeys = [],
        hTriangles = [(0, 1, 2), (0, 2, 3), (0, 3, 4), (0, 4, 5)], numInternalVertices = 6\<rparr>,
      \<lparr>hVertices = [16, 17, 18, 19::nat], hVertexKeys = [],
        hTriangles = [(0, 1, 2), (1, 2, 3)], numInternalVertices = 4\<rparr>] StxxlMesh = Some (Inr M)"
    by (simp add: M_def model_simps StxxlMesh_add_def StxxlMesh_def)
  have rn: "roundDouble (real 10) = 10" using roundDouble_nat[of 10] by simp
  have rt: "roundDouble (3152519739159347 / 4503599627370496) = 3152519739159347 / 4503599627370496"
    by (subst roundDouble_eval[of "- 1"]) (simp_all add: pow2_def roundEven_def)
  have r7: "roundDouble (10 * (3152519739159347 / 4503599627370496)) = 7"
    by (subst roundDouble_eval[of 2]) (simp_all add: pow2_def roundEven_def)
  have th7: "thresholdVertices 10 (3152519739159347 / 4503599627370496) = 7"
  proof -
    have "thresholdVertices 10 (3152519739159347 / 4503599627370496) = cl_uint_of_double 7"
      unfolding thresholdVertices_def rn r7 ..
    also have "\<dots> = 7" by (simp add: cl_uint_of_double_def)
    finally show ?thesis .
  qed
  have rm: "roundDouble (10 * (- 1 / 2)) = - 5"
    by (subst roundDouble_eval[of 2]) (simp_all add: pow2_def roundEven_def)
  have thn: "thresholdVertices 10 (- 1 / 2) = 4294967291"
  proof -
    have "thresholdVertices 10 (- 1 / 2) = cl_uint_of_double (- 5)"
      unfolding thresholdVertices_def rn rm ..
    also have "\<dots> = 4294967291" by (simp add: cl_uint_of_double_def)
    finally show ?thesis .
  qed
  have th0: "thresholdVertices 10 0 = 0" by (rule thresholdVertices_zero)
  have len: "length (meshVertices M) = 10" by (simp add: M_def)
  have w7: "StxxlMesh_write M (3152519739159347 / 4503599627370496) = Some \<lparr>declaredVertices = 0, declaredTriangles = 0, fileVertices = ([]::nat list), fileTriangles = []\<rparr>"
    unfolding StxxlMesh_write_def len th7 by (simp add: M_def write_simps model_simps)
  have wm: "StxxlMesh_write M (- 1 / 2) = Some \<lparr>declaredVertices = 0, declaredTriangles = 0, fileVertices = ([]::nat list), fileTriangles = []\<rparr>"
    unfolding StxxlMesh_write_def len thn by (simp add: M_def write_simps model_simps)
  have w0: "StxxlMesh_write M 0 = Some \<lparr>declaredVertices = 10, declaredTriangles = 6,
              fileVertices = [10::nat, 11, 12, 13, 14, 15, 16, 17, 18, 19],
              fileTriangles = [(0, 1, 2), (0, 2, 3), (0, 3, 4), (0, 4, 5), (6, 7, 8), (7, 8, 9)]\<rparr>"
    unfolding StxxlMesh_write_def len th0 by (simp add: M_def write_simps model_simps)
  have fl: "\<lfloor>real 10 * (3152519739159347 / 4503599627370496)\<rfloor> = 6" by simp
  from ing rt fl th7 w7 thn wm w0 show ?thesis unfolding M_def by simp
qed
section \<open>The counting pass declares what the writing pass writes\<close>



section \<open>Welding an external vertex whose key is known\<close>

text \<open>
  C4. For an external vertex whose key is already in the key map, \<^verbatim>\<open>updateKeyMap\<close> unions the
  clump recorded for the key with the vertex's clump and then decrements the vertex counter
  of the resulting root by one, whether or not the union joined two distinct trees: after a
  true merge the root counts the sum of the two old roots' counters less one, and when both
  clumps already had the same root, that root's counter drops by one.
\<close>

theorem weld_always_decrements:
  assumes "isForest (clumps m)" and "cid < length (clumps m)"
    and "keyMap m key = Some ed" and "clumpId ed < length (clumps m)"
  shows "\<exists>a b w cs'.
           findRootConst (clumps m) cid = Some a
           \<and> findRootConst (clumps m) (clumpId ed) = Some b
           \<and> updateKeyMapStep vid key cid m = Some (False, vertexId ed, m\<lparr>clumps := cs'\<rparr>)
           \<and> findRootConst cs' cid = Some w \<and> findRootConst cs' (clumpId ed) = Some w
           \<and> vertices (cs' ! w)
                = (if a = b then vertices (clumps m ! a)
                   else vertices (clumps m ! a) + vertices (clumps m ! b)) - 1"
proof -
  have f: "forest (clumps m)" using assms(1) by (simp add: isForest_forest)
  from updateKeyMapStep_old[OF f assms(2,3,4), of vid] obtain cs' where
    st: "updateKeyMapStep vid key cid m = Some (False, vertexId ed, m\<lparr>clumps := cs'\<rparr>)"
    and w: "welded (clumps m) cid (clumpId ed) cs'" by blast
  from weld_roots[OF f assms(2,4) w] obtain r where
    r: "findRootConst cs' cid = Some r" "findRootConst cs' (clumpId ed) = Some r"
       "vertices (cs' ! r)
          = (if rep (clumps m) cid = rep (clumps m) (clumpId ed)
             then vertices (clumps m ! rep (clumps m) cid)
             else vertices (clumps m ! rep (clumps m) cid)
                  + vertices (clumps m ! rep (clumps m) (clumpId ed))) - 1" by blast
  have "findRootConst (clumps m) cid = Some (rep (clumps m) cid)"
    "findRootConst (clumps m) (clumpId ed) = Some (rep (clumps m) (clumpId ed))"
    using findRootConst_forest[OF f] assms(2,4) by simp_all
  with st r show ?thesis by blast
qed

theorem weld_always_decrements_witness:
  "isForest [\<lparr>parent = - 1, nsize = 2, vertices = 6, triangles = 3\<rparr>,
             \<lparr>parent = - 1, nsize = 1, vertices = 1, triangles = 0\<rparr>,
             \<lparr>parent = 0, nsize = 1, vertices = 3, triangles = 1\<rparr>]
   \<and> (\<exists>a b w cs'.
         findRootConst [\<lparr>parent = - 1, nsize = 2, vertices = 6, triangles = 3\<rparr>,
             \<lparr>parent = - 1, nsize = 1, vertices = 1, triangles = 0\<rparr>,
             \<lparr>parent = 0, nsize = 1, vertices = 3, triangles = 1\<rparr>] 2 = Some a
         \<and> findRootConst [\<lparr>parent = - 1, nsize = 2, vertices = 6, triangles = 3\<rparr>,
             \<lparr>parent = - 1, nsize = 1, vertices = 1, triangles = 0\<rparr>,
             \<lparr>parent = 0, nsize = 1, vertices = 3, triangles = 1\<rparr>] 0 = Some b
         \<and> updateKeyMapStep 6 4 2
              \<lparr>clumps = [\<lparr>parent = - 1, nsize = 2, vertices = 6, triangles = 3\<rparr>,
                         \<lparr>parent = - 1, nsize = 1, vertices = 1, triangles = 0\<rparr>,
                         \<lparr>parent = 0, nsize = 1, vertices = 3, triangles = 1\<rparr>],
               keyMap = [3 \<mapsto> \<lparr>vertexId = 3, clumpId = 0\<rparr>, 4 \<mapsto> \<lparr>vertexId = 4, clumpId = 0\<rparr>]\<rparr>
             = Some (False, 4,
                \<lparr>clumps = cs',
                 keyMap = [3 \<mapsto> \<lparr>vertexId = 3, clumpId = 0\<rparr>, 4 \<mapsto> \<lparr>vertexId = 4, clumpId = 0\<rparr>]\<rparr>)
         \<and> findRootConst cs' 2 = Some w \<and> findRootConst cs' 0 = Some w
         \<and> a = b \<and> vertices (cs' ! w) = 5)"
  using weld_always_decrements[of
      "\<lparr>clumps = [\<lparr>parent = - 1, nsize = 2, vertices = 6, triangles = 3\<rparr>,
                         \<lparr>parent = - 1, nsize = 1, vertices = 1, triangles = 0\<rparr>,
                         \<lparr>parent = 0, nsize = 1, vertices = 3, triangles = 1\<rparr>],
               keyMap = [3 \<mapsto> \<lparr>vertexId = 3, clumpId = 0\<rparr>, 4 \<mapsto> \<lparr>vertexId = 4, clumpId = 0\<rparr>]\<rparr>"
      2 4 "\<lparr>vertexId = 4, clumpId = 0\<rparr>" 6]
  by (simp add: isForest_def model_simps)

text \<open>
  The claim as stated fails. In the state reached when the second fragment of scenario S2 has
  welded its first key, its second key finds both clumps under root 0 already: the union joins
  nothing, and still the counter of root 0 goes from 6 to 5.
\<close>

theorem weld_same_root_counterexample:
  "merge clumpMerge [\<lparr>parent = - 1, nsize = 2, vertices = 6, triangles = 3\<rparr>,
                     \<lparr>parent = - 1, nsize = 1, vertices = 1, triangles = 0\<rparr>,
                     \<lparr>parent = 0, nsize = 1, vertices = 3, triangles = 1\<rparr>] 2 0
     = Some (False, [\<lparr>parent = - 1, nsize = 2, vertices = 6, triangles = 3\<rparr>,
                     \<lparr>parent = - 1, nsize = 1, vertices = 1, triangles = 0\<rparr>,
                     \<lparr>parent = 0, nsize = 1, vertices = 3, triangles = 1\<rparr>])
   \<and> updateKeyMapStep 6 4 2
        \<lparr>clumps = [\<lparr>parent = - 1, nsize = 2, vertices = 6, triangles = 3\<rparr>,
                   \<lparr>parent = - 1, nsize = 1, vertices = 1, triangles = 0\<rparr>,
                   \<lparr>parent = 0, nsize = 1, vertices = 3, triangles = 1\<rparr>],
         keyMap = [3 \<mapsto> \<lparr>vertexId = 3, clumpId = 0\<rparr>, 4 \<mapsto> \<lparr>vertexId = 4, clumpId = 0\<rparr>]\<rparr>
     = Some (False, 4,
        \<lparr>clumps = [\<lparr>parent = - 1, nsize = 2, vertices = 5, triangles = 3\<rparr>,
                   \<lparr>parent = - 1, nsize = 1, vertices = 1, triangles = 0\<rparr>,
                   \<lparr>parent = 0, nsize = 1, vertices = 3, triangles = 1\<rparr>],
         keyMap = [3 \<mapsto> \<lparr>vertexId = 3, clumpId = 0\<rparr>, 4 \<mapsto> \<lparr>vertexId = 4, clumpId = 0\<rparr>]\<rparr>)"
  by (simp add: model_simps)
section \<open>Local components against the reference connectivity\<close>




end
